theory Spec2Isabelle
  imports Main "HOL-Library.AList"
begin

unbundle bit_operations_syntax

section \<open>Data model of the study manager\<close>

text \<open>
  Python exceptions that the modelled code can raise.
\<close>

datatype error = KeyError | TypeError | AttributeError | NameError | CalledProcessError

text \<open>
  The elapsed time that \<^verbatim>\<open>run_studymanager_command\<close> returns beside the exit code.
  That module is outside these sources and the code below only stores or prints the
  value, so it is carried as text.
\<close>

type_synonym elapsed = string

text \<open>
  \<^verbatim>\<open>class Case\<close>: the attributes read or written by the scheduling code. The numeric
  attributes \<open>n_procs\<close> and \<open>expected_time\<close> hold the number that \<^verbatim>\<open>int(...)\<close> and
  \<^verbatim>\<open>float(...)\<close> read from them; \<open>level\<close> and \<open>job_id\<close> start as \<^verbatim>\<open>None\<close>.
\<close>

record Case =
  study :: string
  label :: string
  resu :: string
  run_id :: string
  title :: string
  n_procs :: int
  expected_time :: int
  depends :: "string option"
  level :: "int option"
  job_id :: "string option"
  compute :: bool
  compare :: bool
  plot :: bool
  no_restart :: bool
  is_compiled :: string
  is_time :: "elapsed option"
  subdomains :: "string list option"

text \<open>
  Case objects are compared and hashed by identity (the class defines neither
  \<^verbatim>\<open>__eq__\<close> nor \<^verbatim>\<open>__hash__\<close>) and are mutated in place while several graphs refer
  to them, so a case is a reference into a store of objects.
\<close>

type_synonym case_ref = nat
type_synonym heap = "case_ref \<Rightarrow> Case"

text \<open>
  Python truthiness of an optional string: \<^verbatim>\<open>None\<close> and the empty string are false
  (\<^verbatim>\<open>if case.depends:\<close>, \<^verbatim>\<open>if msg:\<close>).
\<close>

fun truthy :: "string option \<Rightarrow> bool" where
  "truthy None = False"
| "truthy (Some s) = (s \<noteq> [])"

text \<open>The composite key that \<^verbatim>\<open>add_node\<close> builds for each neighbour.\<close>

definition neighbor_name :: "Case \<Rightarrow> string" where
  "neighbor_name n = study n @ ''/'' @ label n @ ''/'' @ resu n @ ''/'' @ run_id n"

section \<open>class dependency_graph\<close>

text \<open>
  \<^verbatim>\<open>graph_dict\<close> is an \<^verbatim>\<open>OrderedDict\<close> from a case to its dependency (or \<^verbatim>\<open>None\<close>):
  an association list in insertion order. Assigning to a present key keeps its
  position, assigning to an absent key appends, which is \<open>AList.update\<close>.
\<close>

record dependency_graph =
  graph_dict :: "(case_ref \<times> case_ref option) list"
  max_level :: int
  max_proc :: int

definition init_graph :: dependency_graph where
  "init_graph = \<lparr>graph_dict = [], max_level = 0, max_proc = 0\<rparr>"

definition nodes :: "dependency_graph \<Rightarrow> case_ref list" where
  "nodes g = map fst (graph_dict g)"

text \<open>
  \<^verbatim>\<open>add_dependency\<close>: \<^verbatim>\<open>self.graph_dict[node1]\<close> raises \<^verbatim>\<open>KeyError\<close> on an absent node;
  the stored value is \<^verbatim>\<open>None\<close> (false) or a Case object (true, the class has no
  \<^verbatim>\<open>__bool__\<close> or \<^verbatim>\<open>__len__\<close>). The method returns the message in the second branch
  and \<^verbatim>\<open>None\<close> otherwise.
\<close>

definition add_dependency ::
  "heap \<Rightarrow> dependency_graph \<Rightarrow> case_ref \<times> case_ref \<Rightarrow> error + (string option \<times> dependency_graph)" where
  "add_dependency h g dependency =
     (case dependency of (node1, node2) \<Rightarrow>
        (case map_of (graph_dict g) node1 of
           None \<Rightarrow> Inl KeyError
         | Some None \<Rightarrow>
             Inr (None, g\<lparr>graph_dict := AList.update node1 (Some node2) (graph_dict g)\<rparr>)
         | Some (Some _) \<Rightarrow>
             Inr (Some (''Error in dependency graph'' @ title (h node1) @ '' can only''
                        @ '' have one dependency.'' @ [CHR 0x0A]), g)))"

text \<open>
  The \<^verbatim>\<open>for neighbor in self.graph_dict\<close> loop of \<^verbatim>\<open>add_node\<close>, over the keys that
  remain to be visited. On the first neighbour whose key equals \<^verbatim>\<open>case.depends\<close> the
  edge is recorded (the value returned by \<^verbatim>\<open>add_dependency\<close> is dropped), the level
  is set and the loop breaks; \<^verbatim>\<open>neighbor.level + 1\<close> raises \<^verbatim>\<open>TypeError\<close> when the
  neighbour's level is \<^verbatim>\<open>None\<close>.
\<close>

fun scan_neighbors ::
  "heap \<Rightarrow> dependency_graph \<Rightarrow> case_ref \<Rightarrow> string \<Rightarrow> case_ref list
     \<Rightarrow> error + (heap \<times> dependency_graph)" where
  "scan_neighbors h g c d [] = Inr (h, g)"
| "scan_neighbors h g c d (neighbor # rest) =
     (if neighbor_name (h neighbor) = d then
        (case add_dependency h g (c, neighbor) of
           Inl e \<Rightarrow> Inl e
         | Inr (_, g') \<Rightarrow>
             (case level (h neighbor) of
                None \<Rightarrow> Inl TypeError
              | Some l \<Rightarrow>
                  Inr (h(c := (h c)\<lparr>level := Some (l + 1)\<rparr>),
                       g'\<lparr>max_level := max (max_level g') (l + 1)\<rparr>)))
      else scan_neighbors h g c d rest)"

definition dangling_msg :: "string \<Rightarrow> string \<Rightarrow> string" where
  "dangling_msg d t =
     ''Dependency '' @ d @ '' was not found in the list '' @ ''of considered cases. ''
     @ t @ '' will be considered '' @ ''without dependency in the graph. Please check that the ''
     @ ''required results exist.'' @ [CHR 0x0A]"

text \<open>
  \<^verbatim>\<open>add_node\<close> returns the message together with the updated store and graph; an
  exception is \<open>Inl\<close> (the partly updated objects are not kept in the model). The
  test \<^verbatim>\<open>if case.depends:\<close> fails on \<^verbatim>\<open>None\<close> and on the empty string.
\<close>

definition add_node ::
  "heap \<Rightarrow> dependency_graph \<Rightarrow> case_ref
     \<Rightarrow> error + (string option \<times> heap \<times> dependency_graph)" where
  "add_node h g c =
     (if c \<in> set (nodes g) then Inr (None, h, g)
      else
        let g1 = g\<lparr>graph_dict := AList.update c None (graph_dict g)\<rparr>;
            no_dependency = Inr (None, h(c := (h c)\<lparr>level := Some 0\<rparr>), g1)
        in
        (case (case depends (h c) of
                 None \<Rightarrow> no_dependency
               | Some d \<Rightarrow>
                   if d = [] then no_dependency
                   else
                     (case scan_neighbors h g1 c d (nodes g1) of
                        Inl e \<Rightarrow> Inl e
                      | Inr (h2, g2) \<Rightarrow>
                          (case level (h2 c) of
                             None \<Rightarrow>
                               Inr (Some (dangling_msg d (title (h2 c))),
                                    h2(c := (h2 c)\<lparr>level := Some 0\<rparr>), g2)
                           | Some _ \<Rightarrow> Inr (None, h2, g2)))) of
           Inl e \<Rightarrow> Inl e
         | Inr (msg, h3, g3) \<Rightarrow>
             Inr (msg, h3, g3\<lparr>max_proc := max (max_proc g3) (n_procs (h3 c))\<rparr>)))"

text \<open>
  \<^verbatim>\<open>dependencies\<close> iterates over the value stored for each node
  (\<^verbatim>\<open>for neighbor in self.graph_dict[node]\<close>). The value is \<^verbatim>\<open>None\<close> or one Case
  object; neither is iterable (the class has no \<^verbatim>\<open>__iter__\<close> or \<^verbatim>\<open>__getitem__\<close>), so
  the \<^verbatim>\<open>for\<close> statement raises \<^verbatim>\<open>TypeError\<close>.
\<close>

fun iter_value :: "case_ref option \<Rightarrow> error + case_ref list" where
  "iter_value None = Inl TypeError"
| "iter_value (Some c) = Inl TypeError"

fun append_new ::
  "case_ref \<Rightarrow> case_ref list \<Rightarrow> (case_ref \<times> case_ref) list \<Rightarrow> (case_ref \<times> case_ref) list" where
  "append_new node [] ds = ds"
| "append_new node (neighbor # rest) ds =
     append_new node rest (if (neighbor, node) \<notin> set ds then ds @ [(node, neighbor)] else ds)"

fun dependencies_loop ::
  "(case_ref \<times> case_ref option) list \<Rightarrow> (case_ref \<times> case_ref) list
     \<Rightarrow> error + (case_ref \<times> case_ref) list" where
  "dependencies_loop [] ds = Inr ds"
| "dependencies_loop ((node, v) # rest) ds =
     (case iter_value v of
        Inl e \<Rightarrow> Inl e
      | Inr neighbors \<Rightarrow> dependencies_loop rest (append_new node neighbors ds))"

definition dependencies :: "dependency_graph \<Rightarrow> error + (case_ref \<times> case_ref) list" where
  "dependencies g = dependencies_loop (graph_dict g) []"

text \<open>\<^verbatim>\<open>__str__\<close>: the list of titles, then one line for each dependency.\<close>

definition graph_str :: "heap \<Rightarrow> dependency_graph \<Rightarrow> error + string" where
  "graph_str h g =
     (let res = [CHR 0x0A] @ ''List of cases: ''
                @ concat (map (\<lambda>node. title (h node) @ '' '') (nodes g))
                @ [CHR 0x0A] @ ''List of dependencies: ''
      in case dependencies g of
           Inl e \<Rightarrow> Inl e
         | Inr ds \<Rightarrow>
             Inr (res @ concat (map (\<lambda>(node1, node2).
                    [CHR 0x0A] @ title (h node1) @ '' depends on '' @ title (h node2)) ds)))"

text \<open>
  \<^verbatim>\<open>extract_sub_graph\<close>: the loop over the nodes of the graph, building \<open>sub\<close> with
  \<^verbatim>\<open>add_node\<close> on the same Case objects. \<^verbatim>\<open>int(node.level)\<close> raises \<^verbatim>\<open>TypeError\<close> on
  \<^verbatim>\<open>None\<close>. When \<^verbatim>\<open>add_node\<close> returns a message the method calls \<^verbatim>\<open>self.reporting\<close>,
  which class \<^verbatim>\<open>dependency_graph\<close> does not define: \<^verbatim>\<open>AttributeError\<close>.
\<close>

fun extract_loop ::
  "heap \<Rightarrow> dependency_graph \<Rightarrow> int option \<Rightarrow> int option \<Rightarrow> case_ref list
     \<Rightarrow> error + (heap \<times> dependency_graph)" where
  "extract_loop h sub filter_level filter_n_procs [] = Inr (h, sub)"
| "extract_loop h sub filter_level filter_n_procs (node # rest) =
     (case (case filter_level of
              None \<Rightarrow> Inr True
            | Some fl \<Rightarrow> (case level (h node) of
                           None \<Rightarrow> Inl TypeError
                         | Some l \<Rightarrow> Inr (l = fl))) of
        Inl e \<Rightarrow> Inl e
      | Inr keep_node_l \<Rightarrow>
          (let keep_node_p = (case filter_n_procs of
                                None \<Rightarrow> True
                              | Some fp \<Rightarrow> n_procs (h node) = fp)
           in if keep_node_l \<and> keep_node_p then
                (case add_node h sub node of
                   Inl e \<Rightarrow> Inl e
                 | Inr (msg, h', sub') \<Rightarrow>
                     if truthy msg then Inl AttributeError
                     else extract_loop h' sub' filter_level filter_n_procs rest)
              else extract_loop h sub filter_level filter_n_procs rest))"

definition extract_sub_graph ::
  "heap \<Rightarrow> dependency_graph \<Rightarrow> int option \<Rightarrow> int option
     \<Rightarrow> error + (heap \<times> dependency_graph)" where
  "extract_sub_graph h g filter_level filter_n_procs =
     extract_loop h init_graph filter_level filter_n_procs (nodes g)"

text \<open>
  For the statements: the filter of \<^verbatim>\<open>extract_sub_graph\<close> on a node whose level is
  computed, and the state of a graph that \<^verbatim>\<open>add_node\<close> has built.

  \<open>settled h seen ns\<close> reads the nodes \<open>ns\<close> in insertion order, after the nodes
  \<open>seen\<close>: no node occurs twice, every level is computed, a node without dependency
  is at level 0, and a node with a dependency does not find the key it names among
  the nodes inserted up to itself that are at its own level (in a graph built from
  cases with distinct keys the named case is one level below, or absent).
  \<open>graph_consistent\<close> adds that every level lies between 0 and \<open>max_level\<close> and every
  process count between 1 and \<open>max_proc\<close>.
\<close>

definition kept :: "heap \<Rightarrow> int option \<Rightarrow> int option \<Rightarrow> case_ref \<Rightarrow> bool" where
  "kept h filter_level filter_n_procs node =
     ((case filter_level of None \<Rightarrow> True | Some fl \<Rightarrow> level (h node) = Some fl) \<and>
      (case filter_n_procs of None \<Rightarrow> True | Some fp \<Rightarrow> n_procs (h node) = fp))"

fun settled :: "heap \<Rightarrow> case_ref list \<Rightarrow> case_ref list \<Rightarrow> bool" where
  "settled h seen [] = True"
| "settled h seen (n # rest) =
     (n \<notin> set seen \<and>
      (case level (h n) of
         None \<Rightarrow> False
       | Some l \<Rightarrow>
           (case depends (h n) of
              None \<Rightarrow> l = 0
            | Some d \<Rightarrow>
                if d = [] then l = 0
                else (\<forall>m \<in> set (seen @ [n]). level (h m) = Some l \<longrightarrow> neighbor_name (h m) \<noteq> d))) \<and>
      settled h (seen @ [n]) rest)"

definition graph_consistent :: "heap \<Rightarrow> dependency_graph \<Rightarrow> bool" where
  "graph_consistent h g =
     (settled h [] (nodes g) \<and>
      (\<forall>n \<in> set (nodes g).
         (case level (h n) of None \<Rightarrow> False | Some l \<Rightarrow> 0 \<le> l \<and> l \<le> max_level g) \<and>
         1 \<le> n_procs (h n) \<and> n_procs (h n) \<le> max_proc g))"

section \<open>Slurm batches\<close>

text \<open>
  \<^verbatim>\<open>check_slurm_batches\<close>: the three nested loops count the cases with an expected
  time below 5 minutes, cell by cell; \<^verbatim>\<open>range(max_level+1)\<close> is \<open>[0..max_level]\<close> and
  \<^verbatim>\<open>range(max_proc)\<close> is \<open>[0..max_proc - 1]\<close>. The result is the store and the new
  value of \<^verbatim>\<open>__slurm_batch_size\<close>.
\<close>

fun count_short :: "heap \<Rightarrow> case_ref list \<Rightarrow> int \<Rightarrow> int" where
  "count_short h [] nb_cases_short = nb_cases_short"
| "count_short h (c # rest) nb_cases_short =
     count_short h rest (if expected_time (h c) < 5 then nb_cases_short + 1 else nb_cases_short)"

fun check_nproc_loop ::
  "heap \<Rightarrow> dependency_graph \<Rightarrow> int \<Rightarrow> int list \<Rightarrow> int \<Rightarrow> error + (heap \<times> int)" where
  "check_nproc_loop h g lev [] nb_cases_short = Inr (h, nb_cases_short)"
| "check_nproc_loop h g lev (nproc # rest) nb_cases_short =
     (case extract_sub_graph h g (Some lev) (Some (nproc + 1)) of
        Inl e \<Rightarrow> Inl e
      | Inr (h', sub) \<Rightarrow>
          check_nproc_loop h' g lev rest (count_short h' (nodes sub) nb_cases_short))"

fun check_level_loop ::
  "heap \<Rightarrow> dependency_graph \<Rightarrow> int list \<Rightarrow> int \<Rightarrow> error + (heap \<times> int)" where
  "check_level_loop h g [] nb_cases_short = Inr (h, nb_cases_short)"
| "check_level_loop h g (lev # rest) nb_cases_short =
     (case check_nproc_loop h g lev [0..max_proc g - 1] nb_cases_short of
        Inl e \<Rightarrow> Inl e
      | Inr (h', n) \<Rightarrow> check_level_loop h' g rest n)"

definition check_slurm_batches ::
  "heap \<Rightarrow> dependency_graph \<Rightarrow> int \<Rightarrow> error + (heap \<times> int)" where
  "check_slurm_batches h g slurm_batch_size =
     (if slurm_batch_size = 1 then
        (case check_level_loop h g [0..max_level g] 0 of
           Inl e \<Rightarrow> Inl e
         | Inr (h', nb_cases_short) \<Rightarrow>
             Inr (h', if nb_cases_short > 50 then 50 else slurm_batch_size))
      else Inr (h, slurm_batch_size))"

text \<open>
  For the proofs: the number of short cases that the loops find in one cell, the
  cell of level \<open>L\<close> and \<open>p + 1\<close> processes.
\<close>

definition cell_count :: "heap \<Rightarrow> case_ref list \<Rightarrow> int \<Rightarrow> int \<Rightarrow> int" where
  "cell_count h ns L p =
     int (length (filter (\<lambda>c. expected_time (h c) < 5)
            (filter (kept h (Some L) (Some (p + 1))) ns)))"

text \<open>
  \<^verbatim>\<open>run_slurm_batches\<close>. The effects kept are the \<^verbatim>\<open>sbatch\<close> calls, in order, each
  with the cases, the wall time and the dependency list of the batch, and the job
  identifiers stamped on the cases; the text of the script files and the control
  file written when a number of iterations is given are not modelled.
  The external \<^verbatim>\<open>sbatch\<close> is a parameter: for the batch number it says whether the
  call failed, printed no 8-digit number, or printed a job identifier.
  \<^verbatim>\<open>batch_total_time\<close> is a float sum of \<^verbatim>\<open>float(case.expected_time)\<close>; on integer
  minutes that sum is exact, so it is an integer here.
  The local variable \<^verbatim>\<open>batch_cmd\<close> is first assigned inside the loop over
  \<^verbatim>\<open>range(self.graph.max_proc)\<close> and read again by the final submission
  (\<^verbatim>\<open>batch_cmd += self.build_final_batch(...)\<close>); \<open>batch_cmd_bound\<close> records whether
  it has been assigned.
\<close>

datatype sbatch_output = CallFailed | NoJobId | JobId string

record submission =
  sb_batch_id :: int
  sb_ntasks :: int
  sb_minutes :: int
  sb_cases :: "case_ref list"
  sb_after :: "string option list"

record batch_state =
  batch_cmd_bound :: bool
  cur_batch_id :: int
  tot_job_id_list :: "string list"
  cur_batch_size :: int
  batch_total_time :: int
  dep_job_id_list :: "string option list"
  cases_list :: "case_ref list"
  submitted :: "submission list"

record slurm_options =
  slurm_batch_size :: int
  slurm_batch_wtime :: int
  n_study :: int

fun stamp_job_id :: "heap \<Rightarrow> case_ref list \<Rightarrow> string \<Rightarrow> heap" where
  "stamp_job_id h [] j = h"
| "stamp_job_id h (item # rest) j = stamp_job_id (h(item := (h item)\<lparr>job_id := Some j\<rparr>)) rest j"

text \<open>Writing the batch file, submitting it and resetting the current batch.\<close>

definition submit_batch ::
  "(int \<Rightarrow> sbatch_output) \<Rightarrow> int \<Rightarrow> int \<Rightarrow> heap \<Rightarrow> batch_state
     \<Rightarrow> error + (heap \<times> batch_state)" where
  "submit_batch sbatch lev nproc h s =
     (case sbatch (cur_batch_id s) of
        CallFailed \<Rightarrow> Inl CalledProcessError
      | NoJobId \<Rightarrow> Inl AttributeError
      | JobId j \<Rightarrow>
          Inr (stamp_job_id h (cases_list s) j,
               s\<lparr>tot_job_id_list := tot_job_id_list s @ [j],
                 submitted := submitted s @
                   [\<lparr>sb_batch_id = cur_batch_id s, sb_ntasks = nproc + 1,
                     sb_minutes = batch_total_time s, sb_cases = cases_list s,
                     sb_after = (if lev < 1 then [] else dep_job_id_list s)\<rparr>],
                 cur_batch_id := cur_batch_id s + 1,
                 cur_batch_size := 0,
                 batch_total_time := 0,
                 dep_job_id_list := [],
                 cases_list := []\<rparr>))"

text \<open>
  Appending a case to the current batch. At a level above 0 the job identifier of
  the dependency is read through the main graph: \<^verbatim>\<open>self.graph.graph_dict[case].job_id\<close>,
  which raises on a node without an edge.
\<close>

definition append_case ::
  "heap \<Rightarrow> dependency_graph \<Rightarrow> int \<Rightarrow> case_ref \<Rightarrow> batch_state \<Rightarrow> error + batch_state" where
  "append_case h g lev c s =
     (let s1 = s\<lparr>cur_batch_size := cur_batch_size s + 1,
                 batch_total_time := batch_total_time s + expected_time (h c),
                 cases_list := cases_list s @ [c]\<rparr>
      in if lev > 0 then
           (case map_of (graph_dict g) c of
              None \<Rightarrow> Inl KeyError
            | Some None \<Rightarrow> Inl AttributeError
            | Some (Some p) \<Rightarrow>
                (let depend_id = job_id (h p)
                 in Inr (if depend_id \<notin> set (dep_job_id_list s1)
                         then s1\<lparr>dep_job_id_list := dep_job_id_list s1 @ [depend_id]\<rparr>
                         else s1)))
         else Inr s1)"

text \<open>The body of the loop over the cases of one cell.\<close>

definition pack_case ::
  "(int \<Rightarrow> sbatch_output) \<Rightarrow> slurm_options \<Rightarrow> dependency_graph \<Rightarrow> int \<Rightarrow> int
     \<Rightarrow> heap \<Rightarrow> batch_state \<Rightarrow> case_ref \<Rightarrow> error + (heap \<times> batch_state)" where
  "pack_case sbatch opts g lev nproc h s c =
     (if compute (h c) \<and> is_compiled (h c) \<noteq> ''KO'' then
        (let submit_prev =
               \<not> (cur_batch_size s = 0 \<or>
                  batch_total_time s + expected_time (h c) < slurm_batch_wtime opts)
         in case (if submit_prev then Inr s else append_case h g lev c s) of
              Inl e \<Rightarrow> Inl e
            | Inr s1 \<Rightarrow>
                (case (if cur_batch_size s1 \<ge> slurm_batch_size opts \<or> submit_prev \<or>
                          batch_total_time s1 \<ge> slurm_batch_wtime opts
                       then submit_batch sbatch lev nproc h s1 else Inr (h, s1)) of
                   Inl e \<Rightarrow> Inl e
                 | Inr (h2, s2) \<Rightarrow>
                     (if submit_prev then
                        (case append_case h2 g lev c s2 of
                           Inl e \<Rightarrow> Inl e
                         | Inr s3 \<Rightarrow> Inr (h2, s3))
                      else Inr (h2, s2))))
      else Inr (h, s))"

fun pack_loop ::
  "(int \<Rightarrow> sbatch_output) \<Rightarrow> slurm_options \<Rightarrow> dependency_graph \<Rightarrow> int \<Rightarrow> int
     \<Rightarrow> heap \<Rightarrow> batch_state \<Rightarrow> case_ref list \<Rightarrow> error + (heap \<times> batch_state)" where
  "pack_loop sbatch opts g lev nproc h s [] = Inr (h, s)"
| "pack_loop sbatch opts g lev nproc h s (c # rest) =
     (case pack_case sbatch opts g lev nproc h s c of
        Inl e \<Rightarrow> Inl e
      | Inr (h', s') \<Rightarrow> pack_loop sbatch opts g lev nproc h' s' rest)"

text \<open>
  One (level, n_procs) cell, given the cases of its sub-graph: the batch variables
  are reset (\<^verbatim>\<open>batch_cmd = ""\<close> and the four others), the cases are packed, and a
  batch left open is submitted.
\<close>

definition pack_cell ::
  "(int \<Rightarrow> sbatch_output) \<Rightarrow> slurm_options \<Rightarrow> dependency_graph \<Rightarrow> int \<Rightarrow> int
     \<Rightarrow> heap \<Rightarrow> batch_state \<Rightarrow> case_ref list \<Rightarrow> error + (heap \<times> batch_state)" where
  "pack_cell sbatch opts g lev nproc h s cs =
     (case pack_loop sbatch opts g lev nproc h
             (s\<lparr>batch_cmd_bound := True, cur_batch_size := 0, batch_total_time := 0,
                dep_job_id_list := [], cases_list := []\<rparr>) cs of
        Inl e \<Rightarrow> Inl e
      | Inr (h', s') \<Rightarrow>
          if cur_batch_size s' > 0 then submit_batch sbatch lev nproc h' s'
          else Inr (h', s'))"

fun run_nproc_loop ::
  "(int \<Rightarrow> sbatch_output) \<Rightarrow> slurm_options \<Rightarrow> dependency_graph \<Rightarrow> int \<Rightarrow> int list
     \<Rightarrow> heap \<Rightarrow> batch_state \<Rightarrow> error + (heap \<times> batch_state)" where
  "run_nproc_loop sbatch opts g lev [] h s = Inr (h, s)"
| "run_nproc_loop sbatch opts g lev (nproc # rest) h s =
     (case extract_sub_graph h g (Some lev) (Some (nproc + 1)) of
        Inl e \<Rightarrow> Inl e
      | Inr (h1, sub) \<Rightarrow>
          (case pack_cell sbatch opts g lev nproc h1 s (nodes sub) of
             Inl e \<Rightarrow> Inl e
           | Inr (h2, s2) \<Rightarrow> run_nproc_loop sbatch opts g lev rest h2 s2))"

fun run_level_loop ::
  "(int \<Rightarrow> sbatch_output) \<Rightarrow> slurm_options \<Rightarrow> dependency_graph \<Rightarrow> int list
     \<Rightarrow> heap \<Rightarrow> batch_state \<Rightarrow> error + (heap \<times> batch_state)" where
  "run_level_loop sbatch opts g [] h s = Inr (h, s)"
| "run_level_loop sbatch opts g (lev # rest) h s =
     (case run_nproc_loop sbatch opts g lev [0..max_proc g - 1] h s of
        Inl e \<Rightarrow> Inl e
      | Inr (h', s') \<Rightarrow> run_level_loop sbatch opts g rest h' s')"

text \<open>
  The whole method: all cells, then the final submission for post-processing, which
  waits for every job submitted so far and is given 10 minutes per study. When no
  cell has been visited (\<open>max_proc\<close> is 0, or \<open>max_level\<close> is negative) \<^verbatim>\<open>batch_cmd\<close> is
  unbound there and the method raises \<^verbatim>\<open>UnboundLocalError\<close>, a \<^verbatim>\<open>NameError\<close>.
\<close>

definition run_slurm_batches ::
  "(int \<Rightarrow> sbatch_output) \<Rightarrow> slurm_options \<Rightarrow> dependency_graph \<Rightarrow> heap
     \<Rightarrow> error + (heap \<times> submission list)" where
  "run_slurm_batches sbatch opts g h =
     (case run_level_loop sbatch opts g [0..max_level g] h
             \<lparr>batch_cmd_bound = False, cur_batch_id = 0, tot_job_id_list = [],
              cur_batch_size = 0, batch_total_time = 0, dep_job_id_list = [],
              cases_list = [], submitted = []\<rparr> of
        Inl e \<Rightarrow> Inl e
      | Inr (h', s) \<Rightarrow>
          if \<not> batch_cmd_bound s then Inl NameError
          else
            (case sbatch (cur_batch_id s) of
               CallFailed \<Rightarrow> Inl CalledProcessError
             | _ \<Rightarrow>
                 Inr (h', submitted s @
                        [\<lparr>sb_batch_id = cur_batch_id s, sb_ntasks = 1,
                          sb_minutes = n_study opts * 10, sb_cases = [],
                          sb_after = map Some (tot_job_id_list s)\<rparr>])))"

text \<open>
  For the proofs: what the packing of a cell does to the size, the time and the
  cases of the open batch and to the batches submitted so far, as a function of
  these four alone. \<open>pack_case_view\<close> below shows that \<open>pack_case\<close> follows it.
\<close>

type_synonym packing = "int \<times> int \<times> case_ref list \<times> (case_ref list \<times> int) list"

definition batch_view :: "batch_state \<Rightarrow> packing" where
  "batch_view s =
     (cur_batch_size s, batch_total_time s, cases_list s,
      map (\<lambda>b. (sb_cases b, sb_minutes b)) (submitted s))"

fun pack_view :: "slurm_options \<Rightarrow> int \<Rightarrow> case_ref \<Rightarrow> packing \<Rightarrow> packing" where
  "pack_view opts t c (n, tot, cs, done) =
     (if n = 0 \<or> tot + t < slurm_batch_wtime opts then
        (if n + 1 \<ge> slurm_batch_size opts \<or> tot + t \<ge> slurm_batch_wtime opts
         then (0, 0, [], done @ [(cs @ [c], tot + t)])
         else (n + 1, tot + t, cs @ [c], done))
      else (1, t, [c], done @ [(cs, tot)]))"

text \<open>
  What \<open>append_case\<close> needs in order not to raise: at a level above 0 the case has an
  edge in the main graph.
\<close>

definition has_parent :: "dependency_graph \<Rightarrow> int \<Rightarrow> case_ref \<Rightarrow> bool" where
  "has_parent g lev c =
     (case map_of (graph_dict g) c of Some (Some p) \<Rightarrow> True | _ \<Rightarrow> lev \<le> 0)"

section \<open>class Case\<close>

text \<open>
  The states of \<^verbatim>\<open>cs_case.case_state\<close>, a module outside these sources; only the
  comparison with \<^verbatim>\<open>FINALIZED\<close> is used.
\<close>

datatype case_state =
  UNKNOWN | STAGING | STAGED | PREPROCESSED | RUNNING | COMPUTED | FINALIZING
  | FINALIZED | EXCEEDED_TIME_LIMIT | FAILED

text \<open>
  \<^verbatim>\<open>__query_dependence__\<close>, from the comment "check the existence of the dependency
  run folder" on. The first half of the method reads \<^verbatim>\<open>setup.xml\<close> and the parametric
  arguments and yields the inferred key, the argument \<open>inferred\<close> here. The file system
  enters through \<open>run_folder\<close> (the normalised path built from the key), \<open>isdir\<close> and
  \<open>get_case_state\<close> (called with the coupling flag). The result is the returned
  dependency and the case object.
\<close>

definition query_dependence ::
  "(string \<Rightarrow> string) \<Rightarrow> (string \<Rightarrow> bool) \<Rightarrow> (string \<Rightarrow> bool \<Rightarrow> case_state)
     \<Rightarrow> Case \<Rightarrow> string option \<Rightarrow> string option \<times> Case" where
  "query_dependence run_folder isdir get_case_state self inferred =
     (case inferred of
        None \<Rightarrow> (None, self)
      | Some d \<Rightarrow>
          if d = [] then (None, self)
          else if isdir (run_folder d) then
            (let is_coupling = (subdomains self \<noteq> None);
                 state = get_case_state (run_folder d) is_coupling
             in if state = FINALIZED then (None, self)
                else (Some d, self\<lparr>no_restart := True, compute := False,
                                   compare := False, plot := False\<rparr>))
          else (Some d, self))"

text \<open>
  \<^verbatim>\<open>prepare_run_folder\<close>. \<open>cmd\<close> is the staging command: for a coupled case it is
  run once for each entry of the listing of the reference directory that is a
  subdomain, and its result may differ from run to run, so it is indexed by the
  entry; otherwise it is run once, for the case. \<open>t\<close> is unbound until a command has
  run. \<open>status_prepared_exists\<close> and \<open>case_log_exists\<close> say whether the files
  \<^verbatim>\<open>run_status.prepared\<close> and \<^verbatim>\<open>run_case.log\<close> are in the run directory. The copies
  of the other entries and the moves of the log file are not modelled. The result is
  the list of log lines and the case object.
\<close>

fun stage_subdomains ::
  "(string \<Rightarrow> int \<times> elapsed) \<Rightarrow> string list \<Rightarrow> string list \<Rightarrow> int \<times> elapsed option
     \<Rightarrow> int \<times> elapsed option" where
  "stage_subdomains cmd subs [] acc = acc"
| "stage_subdomains cmd subs (node # rest) (retval, t) =
     (if node \<in> set subs then
        (case cmd node of
           (node_retval, t') \<Rightarrow>
             stage_subdomains cmd subs rest (min node_retval retval, Some t'))
      else stage_subdomains cmd subs rest (retval, t))"

definition prepare_run_folder ::
  "(string \<Rightarrow> int \<times> elapsed) \<Rightarrow> string list \<Rightarrow> bool \<Rightarrow> bool \<Rightarrow> string \<Rightarrow> Case
     \<Rightarrow> error + (string list \<times> Case)" where
  "prepare_run_folder cmd listing status_prepared_exists case_log_exists log_path self =
     (let (have_status_prepared, retval, t) =
            (case subdomains self of
               None \<Rightarrow>
                 (case cmd (label self) of (r, t') \<Rightarrow> (status_prepared_exists, r, Some t'))
             | Some subs \<Rightarrow>
                 if subs = [] then
                   (case cmd (label self) of (r, t') \<Rightarrow> (status_prepared_exists, r, Some t'))
                 else
                   (case stage_subdomains cmd subs listing (1, None) of
                      (r, t') \<Rightarrow> (False, r, t')))
      in case t of
           None \<Rightarrow> Inl NameError
         | Some ts \<Rightarrow>
             if retval = 0 then
               Inr ([''      * prepare run folder: '' @ title self @ '' --> OK ('' @ ts @ '' s)''],
                    self)
             else
               (let have_case_log = case_log_exists;
                    fail_info = (if have_case_log then
                                   (if have_status_prepared then ''SKIPPED (already prepared)''
                                    else ''SKIPPED (already present)'')
                                 else ''FAILED'');
                    line = ''      * prepare run folder: '' @ title self @ '' --> ''
                           @ fail_info @ '' ('' @ ts @ '' s)''
                in if \<not> have_status_prepared then
                     Inr ([line, ''        - see '' @ log_path], self\<lparr>compute := False\<rparr>)
                   else Inr ([line], self)))"

text \<open>
  \<^verbatim>\<open>Case.run\<close>. The result of the external command (exit code and elapsed time) is
  the argument \<open>cmd_result\<close>; \<^verbatim>\<open>error & mem_log_leak_code\<close> is the bitwise and of
  Python's unbounded integers. The method returns \<^verbatim>\<open>(error, mem_log_leak)\<close>.
\<close>

definition run :: "heap \<Rightarrow> case_ref \<Rightarrow> bool \<Rightarrow> int \<times> elapsed \<Rightarrow> (int \<times> bool) \<times> heap" where
  "run h self mem_log cmd_result =
     (case cmd_result of
        (error0, t) \<Rightarrow>
          (let h1 = h(self := (h self)\<lparr>is_time := Some t\<rparr>);
               mem_log_leak_code = 2;
               (err, mem_log_leak) =
                 (if mem_log \<and> (error0 AND mem_log_leak_code) \<noteq> 0
                  then (error0 - mem_log_leak_code, True) else (error0, False));
               h2 = (if err \<noteq> 0
                     then h1(self := (h1 self)\<lparr>compare := False, plot := False\<rparr>)
                     else h1)
           in ((err, mem_log_leak), h2)))"

section \<open>Example cases\<close>

text \<open>
  The attributes that \<^verbatim>\<open>Case.__init__\<close> sets for a case that is not coupled, with
  every command flag on: the level and the job identifier are \<^verbatim>\<open>None\<close>.
\<close>

definition new_case :: "string \<Rightarrow> string \<Rightarrow> string \<Rightarrow> int \<Rightarrow> int \<Rightarrow> string option \<Rightarrow> Case" where
  "new_case st lb rid np et dep =
     \<lparr>study = st, label = lb, resu = ''RESU'', run_id = rid,
      title = st @ ''/'' @ lb @ ''/'' @ ''RESU'' @ ''/'' @ rid,
      n_procs = np, expected_time = et, depends = dep, level = None, job_id = None,
      compute = True, compare = True, plot = True, no_restart = False,
      is_compiled = ''not done'', is_time = None, subdomains = None\<rparr>"

text \<open>Three cases of one study: B restarts from A, C restarts from B.\<close>

definition chain_heap :: heap where
  "chain_heap =
     (\<lambda>_. new_case ''S'' ''X'' ''run1'' 1 3 None)
       (0 := new_case ''S'' ''A'' ''run1'' 4 2 None,
        1 := new_case ''S'' ''B'' ''run1'' 4 2 (Some ''S/A/RESU/run1''),
        2 := new_case ''S'' ''C'' ''run1'' 4 2 (Some ''S/B/RESU/run1''))"

text \<open>The store and the graph after the three cases have been added in order.\<close>

definition chain_built :: heap where
  "chain_built =
     chain_heap
       (0 := (chain_heap 0)\<lparr>level := Some 0\<rparr>,
        1 := (chain_heap 1)\<lparr>level := Some 1\<rparr>,
        2 := (chain_heap 2)\<lparr>level := Some 2\<rparr>)"

definition chain_graph :: dependency_graph where
  "chain_graph = \<lparr>graph_dict = [(0, None), (1, Some 0), (2, Some 1)], max_level = 2, max_proc = 4\<rparr>"

text \<open>
  Four independent cases on one process, three minutes each, with the level that
  \<^verbatim>\<open>add_node\<close> gives them, and their graph.
\<close>

definition four_heap :: heap where
  "four_heap = (\<lambda>i. (new_case ''S'' ''SHORT'' ''run'' 1 3 None)\<lparr>level := Some 0\<rparr>)"

definition four_graph :: dependency_graph where
  "four_graph = \<lparr>graph_dict = [(0, None), (1, None), (2, None), (3, None)],
                  max_level = 0, max_proc = 1\<rparr>"

definition every_job :: "int \<Rightarrow> sbatch_output" where
  "every_job i = JobId ''12345678''"

text \<open>The graph of the first \<open>k\<close> of these cases.\<close>

definition short_graph :: "nat \<Rightarrow> dependency_graph" where
  "short_graph k = \<lparr>graph_dict = map (\<lambda>i. (i, None)) [0..<k], max_level = 0, max_proc = 1\<rparr>"

text \<open>A new case whose \<open>depends\<close> is its own key.\<close>

definition self_heap :: heap where
  "self_heap = (\<lambda>i. new_case ''S'' ''A'' ''run1'' 4 2 (Some ''S/A/RESU/run1''))"

text \<open>
  Four cases that restart from a fifth: the cases 0 to 3 are at level 1 with an edge
  to case 4, which is at level 0.
\<close>

definition restart_heap :: heap where
  "restart_heap =
     (\<lambda>i. (new_case ''S'' ''NEXT'' ''run'' 1 3 (Some ''S/BASE/RESU/run''))\<lparr>level := Some 1\<rparr>)
       (4 := (new_case ''S'' ''BASE'' ''run'' 1 3 None)\<lparr>level := Some 0\<rparr>)"

definition restart_graph :: dependency_graph where
  "restart_graph =
     \<lparr>graph_dict = [(4, None), (0, Some 4), (1, Some 4), (2, Some 4), (3, Some 4)],
      max_level = 1, max_proc = 1\<rparr>"

text \<open>
  The graph that \<^verbatim>\<open>dump_graph\<close> leaves in \<^verbatim>\<open>self.graph\<close> when the level filter is 1 and
  51 cases of three minutes restart from a case of level 0 (lines 1776 to 1798: the
  cases of level 1 are added again to a new graph, where their dependency is absent;
  they keep their level, get no edge, and \<open>max_level\<close> stays 0).
\<close>

definition filtered_heap :: heap where
  "filtered_heap =
     (\<lambda>i. (new_case ''S'' ''NEXT'' ''run'' 1 3 (Some ''S/BASE/RESU/run''))\<lparr>level := Some 1\<rparr>)"

definition filtered_graph :: dependency_graph where
  "filtered_graph = \<lparr>graph_dict = map (\<lambda>i. (i, None)) [0..<51], max_level = 0, max_proc = 1\<rparr>"

text \<open>A case that is not coupled, for the staging of a single case.\<close>

definition single_case :: Case where
  "single_case = new_case ''S'' ''ONE'' ''run1'' 4 2 None"



definition staging_killed :: "string \<Rightarrow> int \<times> elapsed" where
  "staging_killed node = (if node = ''fluid'' then (- 9, ''0.50'') else (0, ''0.40''))"

section \<open>Properties of the dependency graph\<close>

lemma map_of_update_absent:
  "k \<notin> fst ` set al \<Longrightarrow> AList.update k v al = al @ [(k, v)]"
  by (induction al) auto

lemma map_of_snoc_absent:
  "k \<notin> fst ` set al \<Longrightarrow> map_of (al @ [(k, v)]) k = Some v"
  by (induction al) auto

lemma neighbor_name_level_update [simp]:
  "neighbor_name (c\<lparr>level := l\<rparr>) = neighbor_name c"
  by (simp add: neighbor_name_def)

lemma neighbor_name_not_empty [simp]: "neighbor_name c \<noteq> []"
  by (simp add: neighbor_name_def)

lemma scan_neighbors_no_match:
  "\<forall>n \<in> set ns. neighbor_name (h n) \<noteq> d \<Longrightarrow> scan_neighbors h g c d ns = Inr (h, g)"
  by (induction ns) auto

subsection \<open>Levels along a chain\<close>



subsection \<open>A single dependency for each node\<close>

text \<open>
  C2. A node that already has a dependency recorded keeps it: a second
  \<^verbatim>\<open>add_dependency\<close> returns the error message and the graph is unchanged.
\<close>

theorem add_dependency_second_rejected:
  assumes "map_of (graph_dict g) node1 = Some (Some d)"
  shows "add_dependency h g (node1, node2) =
           Inr (Some (''Error in dependency graph'' @ title (h node1)
                      @ '' can only have one dependency.'' @ [CHR 0x0A]), g)"
  using assms by (simp add: add_dependency_def)

theorem add_dependency_second_rejected_witness:
  "add_dependency chain_heap
     \<lparr>graph_dict = [(0, None), (1, Some 0), (2, None)], max_level = 1, max_proc = 4\<rparr> (1, 2) =
     Inr (Some (''Error in dependency graphS/B/RESU/run1 can only have one dependency.''
                @ [CHR 0x0A]),
          \<lparr>graph_dict = [(0, None), (1, Some 0), (2, None)], max_level = 1, max_proc = 4\<rparr>)"
  using add_dependency_second_rejected
    [of "\<lparr>graph_dict = [(0, None), (1, Some 0), (2, None)], max_level = 1, max_proc = 4\<rparr>"
        1 0 chain_heap 2]
  by (simp add: chain_heap_def new_case_def)

subsection \<open>Dangling dependencies\<close>

lemma add_node_dangling:
  assumes "c \<notin> set (nodes g)" and "level (h c) = None"
    and "depends (h c) = Some d" and "d \<noteq> []"
    and "\<forall>n \<in> set (nodes g) \<union> {c}. neighbor_name (h n) \<noteq> d"
  shows "add_node h g c =
           Inr (Some (dangling_msg d (title (h c))),
                h(c := (h c)\<lparr>level := Some 0\<rparr>),
                g\<lparr>graph_dict := graph_dict g @ [(c, None)],
                  max_proc := max (max_proc g) (n_procs (h c))\<rparr>)"
proof -
  have upd: "AList.update c None (graph_dict g) = graph_dict g @ [(c, None)]"
    using assms(1) by (simp add: map_of_update_absent nodes_def)
  have "scan_neighbors h (g\<lparr>graph_dict := graph_dict g @ [(c, None)]\<rparr>) c d (nodes g @ [c])
          = Inr (h, g\<lparr>graph_dict := graph_dict g @ [(c, None)]\<rparr>)"
    using assms(5) by (intro scan_neighbors_no_match) auto
  then show ?thesis
    using assms(1-4) by (simp add: add_node_def upd nodes_def)
qed

text \<open>
  The scan of \<^verbatim>\<open>add_node\<close> runs after the case has been inserted, so it visits the
  case itself: a new case that names its own key is matched with itself, and
  \<^verbatim>\<open>neighbor.level + 1\<close> raises on its level \<^verbatim>\<open>None\<close>.
\<close>

lemma add_node_self_dependency:
  assumes "c \<notin> set (nodes g)" and "level (h c) = None"
    and "depends (h c) = Some (neighbor_name (h c))"
    and "\<forall>n \<in> set (nodes g). neighbor_name (h n) \<noteq> neighbor_name (h c)"
  shows "add_node h g c = Inl TypeError"
proof -
  have upd: "AList.update c None (graph_dict g) = graph_dict g @ [(c, None)]"
    using assms(1) by (simp add: map_of_update_absent nodes_def)
  have scan: "scan_neighbors h g' c (neighbor_name (h c)) (ns @ [c]) = Inl TypeError"
    if "\<forall>n \<in> set ns. neighbor_name (h n) \<noteq> neighbor_name (h c)"
      and "map_of (graph_dict g') c = Some None" for ns g'
    using that assms(2) by (induction ns) (auto simp: add_dependency_def)
  have "map_of (graph_dict g @ [(c, None)]) c = Some None"
    using assms(1) by (intro map_of_snoc_absent) (simp add: nodes_def)
  then show ?thesis
    using assms scan [of "nodes g" "g\<lparr>graph_dict := graph_dict g @ [(c, None)]\<rparr>"]
    by (simp add: add_node_def upd nodes_def)
qed

text \<open>
  What the code does for a dangling dependency. A case that is not yet in the graph,
  whose level is not computed and whose \<open>depends\<close> is set but is the key of no node
  that \<^verbatim>\<open>add_node\<close> scans (the nodes of the graph and the case itself, which is
  inserted before the scan): the call returns a non-empty warning, the case is the
  last node of the graph, it has no edge and its level is 0.
\<close>

theorem add_node_dangling_dependency:
  assumes "c \<notin> set (nodes g)" and "level (h c) = None"
    and "depends (h c) = Some d" and "d \<noteq> []"
    and "\<forall>n \<in> set (nodes g) \<union> {c}. neighbor_name (h n) \<noteq> d"
  shows "\<exists>msg h' g'. add_node h g c = Inr (Some msg, h', g') \<and> msg \<noteq> [] \<and>
           nodes g' = nodes g @ [c] \<and> level (h' c) = Some 0 \<and>
           map_of (graph_dict g') c = Some None"
  using assms(1) map_of_snoc_absent [of c "graph_dict g" None]
  by (simp add: add_node_dangling [OF assms] dangling_msg_def nodes_def)

theorem add_node_dangling_dependency_witness:
  "\<exists>msg h' g'. add_node chain_heap init_graph 1 = Inr (Some msg, h', g') \<and> msg \<noteq> [] \<and>
     nodes g' = [1] \<and> level (h' 1) = Some 0 \<and> map_of (graph_dict g') 1 = Some None"
  using add_node_dangling_dependency [of 1 init_graph chain_heap "''S/A/RESU/run1''"]
  by (simp add: chain_heap_def new_case_def neighbor_name_def init_graph_def nodes_def)

text \<open>
  C3. A new case whose level is not computed and whose \<open>depends\<close> is set and matches
  the key of no node of the graph must be inserted at level 0 with a warning. On
  the empty graph, for the new case that names its own key, \<^verbatim>\<open>add_node\<close> raises
  \<^verbatim>\<open>TypeError\<close> instead: the case is inserted before the scan, the scan meets the
  case itself and adds 1 to its level \<^verbatim>\<open>None\<close>.
\<close>

theorem add_node_self_naming_raises:
  "nodes init_graph = [] \<and> level (self_heap 0) = None \<and>
   depends (self_heap 0) = Some (neighbor_name (self_heap 0)) \<and>
   add_node self_heap init_graph 0 = Inl TypeError"
  by (simp add: add_node_def init_graph_def nodes_def add_dependency_def self_heap_def
      new_case_def neighbor_name_def)

subsection \<open>Listing the dependencies\<close>

lemma dependencies_loop_nonempty: "gd \<noteq> [] \<Longrightarrow> dependencies_loop gd ds = Inl TypeError"
  by (cases gd; cases "snd (hd gd)") (auto split: prod.splits)

text \<open>
  C10. \<^verbatim>\<open>dependencies\<close> returns the empty list on an empty graph and raises
  \<^verbatim>\<open>TypeError\<close> on every other graph, whatever the nodes hold; so does \<^verbatim>\<open>__str__\<close>,
  which returns its two headings on the empty graph.
\<close>

theorem dependencies_raises:
  "(graph_dict g = [] \<longrightarrow>
      dependencies g = Inr [] \<and>
      graph_str h g = Inr ([CHR 0x0A] @ ''List of cases: '' @ [CHR 0x0A] @ ''List of dependencies: '')) \<and>
   (graph_dict g \<noteq> [] \<longrightarrow> dependencies g = Inl TypeError \<and> graph_str h g = Inl TypeError)"
  by (simp add: dependencies_def graph_str_def nodes_def dependencies_loop_nonempty)

theorem dependencies_raises_witness:
  "dependencies init_graph = Inr [] \<and>
   dependencies \<lparr>graph_dict = [(0, None)], max_level = 0, max_proc = 4\<rparr> = Inl TypeError \<and>
   dependencies \<lparr>graph_dict = [(0, None), (1, Some 0)], max_level = 1, max_proc = 4\<rparr> = Inl TypeError \<and>
   graph_str chain_heap \<lparr>graph_dict = [(0, None), (1, Some 0)], max_level = 1, max_proc = 4\<rparr> = Inl TypeError"
  using dependencies_raises [of init_graph chain_heap]
    dependencies_raises [of "\<lparr>graph_dict = [(0, None)], max_level = 0, max_proc = 4\<rparr>" chain_heap]
    dependencies_raises [of "\<lparr>graph_dict = [(0, None), (1, Some 0)], max_level = 1, max_proc = 4\<rparr>" chain_heap]
  by (simp add: init_graph_def)

subsection \<open>Sub-graphs\<close>

lemma chain_graph_built:
  "add_node chain_heap init_graph 0 = Inr (None, chain_heap(0 := (chain_heap 0)\<lparr>level := Some 0\<rparr>),
       \<lparr>graph_dict = [(0, None)], max_level = 0, max_proc = 4\<rparr>) \<and>
   add_node (chain_heap(0 := (chain_heap 0)\<lparr>level := Some 0\<rparr>))
       \<lparr>graph_dict = [(0, None)], max_level = 0, max_proc = 4\<rparr> 1 =
     Inr (None, chain_heap(0 := (chain_heap 0)\<lparr>level := Some 0\<rparr>, 1 := (chain_heap 1)\<lparr>level := Some 1\<rparr>),
       \<lparr>graph_dict = [(0, None), (1, Some 0)], max_level = 1, max_proc = 4\<rparr>) \<and>
   add_node (chain_heap(0 := (chain_heap 0)\<lparr>level := Some 0\<rparr>, 1 := (chain_heap 1)\<lparr>level := Some 1\<rparr>))
       \<lparr>graph_dict = [(0, None), (1, Some 0)], max_level = 1, max_proc = 4\<rparr> 2 =
     Inr (None, chain_built, chain_graph)"
  by (simp add: add_node_def init_graph_def nodes_def add_dependency_def Let_def chain_heap_def
      new_case_def neighbor_name_def chain_built_def chain_graph_def)

lemma heap_level_update_same: "level (h c) = Some l \<Longrightarrow> h(c := (h c)\<lparr>level := Some l\<rparr>) = h"
  by (simp add: fun_upd_idem)

lemma scan_neighbors_levelled:
  assumes "map_of (graph_dict g) c = Some None" and "\<forall>n \<in> set ns. level (h n) \<noteq> None"
  shows "(scan_neighbors h g c d ns = Inr (h, g) \<and> (\<forall>n \<in> set ns. neighbor_name (h n) \<noteq> d)) \<or>
         (\<exists>n l. n \<in> set ns \<and> neighbor_name (h n) = d \<and>
            scan_neighbors h g c d ns =
              Inr (h(c := (h c)\<lparr>level := Some l\<rparr>),
                   g\<lparr>graph_dict := AList.update c (Some n) (graph_dict g),
                     max_level := max (max_level g) l\<rparr>))"
  using assms(2)
proof (induction ns)
  case Nil
  then show ?case by simp
next
  case (Cons a ns)
  show ?case
  proof (cases "neighbor_name (h a) = d")
    case True
    obtain y where y: "level (h a) = Some y" using Cons.prems by auto
    have "scan_neighbors h g c d (a # ns) =
            Inr (h(c := (h c)\<lparr>level := Some (y + 1)\<rparr>),
                 g\<lparr>graph_dict := AList.update c (Some a) (graph_dict g),
                   max_level := max (max_level g) (y + 1)\<rparr>)"
      using True y assms(1) by (simp add: add_dependency_def)
    moreover have "a \<in> set (a # ns)" by simp
    ultimately show ?thesis
      using True by blast
  next
    case False
    have "\<forall>n \<in> set ns. level (h n) \<noteq> None" using Cons.prems by simp
    from Cons.IH [OF this] show ?thesis
    proof (elim disjE exE conjE)
      assume "scan_neighbors h g c d ns = Inr (h, g)"
        and "\<forall>n \<in> set ns. neighbor_name (h n) \<noteq> d"
      then show ?thesis using False by simp
    next
      fix n l
      assume "n \<in> set ns" and "neighbor_name (h n) = d"
        and "scan_neighbors h g c d ns =
              Inr (h(c := (h c)\<lparr>level := Some l\<rparr>),
                   g\<lparr>graph_dict := AList.update c (Some n) (graph_dict g),
                     max_level := max (max_level g) l\<rparr>)"
      then have "n \<in> set (a # ns)" and "neighbor_name (h n) = d"
        and "scan_neighbors h g c d (a # ns) =
              Inr (h(c := (h c)\<lparr>level := Some l\<rparr>),
                   g\<lparr>graph_dict := AList.update c (Some n) (graph_dict g),
                     max_level := max (max_level g) l\<rparr>)"
        using False by simp_all
      then show ?thesis by blast
    qed
  qed
qed

lemma nodes_snoc_update:
  "c \<notin> set (nodes g) \<Longrightarrow>
     map fst (AList.update c v (graph_dict g @ [(c, None)])) = nodes g @ [c]"
  by (simp add: nodes_def update_keys)

lemma add_node_levelled:
  assumes "c \<notin> set (nodes g)" and "\<forall>n \<in> set (nodes g) \<union> {c}. level (h n) \<noteq> None"
  shows "\<exists>lv g'. add_node h g c = Inr (None, h(c := (h c)\<lparr>level := Some lv\<rparr>), g') \<and>
           nodes g' = nodes g @ [c] \<and>
           (\<forall>k. k \<noteq> c \<longrightarrow> map_of (graph_dict g') k = map_of (graph_dict g) k)"
proof -
  let ?gd = "graph_dict g @ [(c, None)]"
  let ?g1 = "g\<lparr>graph_dict := ?gd\<rparr>"
  have upd: "AList.update c None (graph_dict g) = ?gd"
    using assms(1) by (simp add: map_of_update_absent nodes_def)
  have c_none: "map_of (graph_dict ?g1) c = Some None"
    using assms(1) map_of_snoc_absent [of c "graph_dict g" None] by (simp add: nodes_def)
  obtain l0 where l0: "level (h c) = Some l0" using assms(2) by auto
  have same: "h(c := (h c)\<lparr>level := Some l0\<rparr>) = h"
    using l0 by (rule heap_level_update_same [where h = h and c = c])
  have other: "k \<noteq> c \<Longrightarrow> map_of ?gd k = map_of (graph_dict g) k" for k
    by (auto simp: map_add_def split: option.splits)
  show ?thesis
  proof (cases "depends (h c) = None \<or> depends (h c) = Some []")
    case True
    then show ?thesis
      using assms(1) other by (auto simp: add_node_def upd nodes_def)
  next
    case False
    then obtain d where d: "depends (h c) = Some d" "d \<noteq> []" by auto
    have lev: "\<forall>n \<in> set (nodes ?g1). level (h n) \<noteq> None"
      using assms(2) by (auto simp: nodes_def)
    from scan_neighbors_levelled [OF c_none lev, of d]
    show ?thesis
    proof (elim disjE exE conjE)
      assume "scan_neighbors h ?g1 c d (nodes ?g1) = Inr (h, ?g1)"
      then have "add_node h g c =
          Inr (None, h, ?g1\<lparr>max_proc := max (max_proc g) (n_procs (h c))\<rparr>)"
        using assms(1) d l0 by (simp add: add_node_def upd)
      then show ?thesis
        using same other by (intro exI [of _ l0]) (auto simp: nodes_def)
    next
      fix n l
      assume "scan_neighbors h ?g1 c d (nodes ?g1) =
          Inr (h(c := (h c)\<lparr>level := Some l\<rparr>),
               ?g1\<lparr>graph_dict := AList.update c (Some n) (graph_dict ?g1),
                    max_level := max (max_level ?g1) l\<rparr>)"
      then have "add_node h g c =
          Inr (None, h(c := (h c)\<lparr>level := Some l\<rparr>),
               g\<lparr>graph_dict := AList.update c (Some n) ?gd, max_level := max (max_level g) l,
                 max_proc := max (max_proc g) (n_procs (h c))\<rparr>)"
        using assms(1) d by (simp add: add_node_def upd)
      then show ?thesis
        using nodes_snoc_update [OF assms(1), of "Some n"] other
        by (intro exI [of _ l]) (auto simp: nodes_def update_conv')
    qed
  qed
qed

lemma add_node_unmatched_levelled:
  assumes "c \<notin> set (nodes g)" and "level (h c) = Some l"
    and "depends (h c) = Some d" and "d \<noteq> []"
    and "\<forall>n \<in> set (nodes g) \<union> {c}. neighbor_name (h n) \<noteq> d"
  shows "add_node h g c =
           Inr (None, h, g\<lparr>graph_dict := graph_dict g @ [(c, None)],
                           max_proc := max (max_proc g) (n_procs (h c))\<rparr>)"
proof -
  have upd: "AList.update c None (graph_dict g) = graph_dict g @ [(c, None)]"
    using assms(1) by (simp add: map_of_update_absent nodes_def)
  have "scan_neighbors h (g\<lparr>graph_dict := graph_dict g @ [(c, None)]\<rparr>) c d (nodes g @ [c])
          = Inr (h, g\<lparr>graph_dict := graph_dict g @ [(c, None)]\<rparr>)"
    using assms(5) by (intro scan_neighbors_no_match) auto
  then show ?thesis
    using assms(1-4) by (simp add: add_node_def upd nodes_def)
qed

lemma add_node_independent_levelled:
  assumes "c \<notin> set (nodes g)" and "level (h c) = Some 0"
    and "depends (h c) = None \<or> depends (h c) = Some []"
  shows "add_node h g c =
           Inr (None, h, g\<lparr>graph_dict := graph_dict g @ [(c, None)],
                           max_proc := max (max_proc g) (n_procs (h c))\<rparr>)"
proof -
  have upd: "AList.update c None (graph_dict g) = graph_dict g @ [(c, None)]"
    using assms(1) by (simp add: map_of_update_absent nodes_def)
  show ?thesis
    using assms heap_level_update_same [where h = h and c = c, OF assms(2)] by (auto simp: add_node_def upd)
qed

lemma extract_loop_Cons_levelled:
  assumes "level (h x) \<noteq> None"
  shows "extract_loop h sub fl fp (x # rest) =
           (if kept h fl fp x then
              (case add_node h sub x of
                 Inl e \<Rightarrow> Inl e
               | Inr (msg, h', sub') \<Rightarrow>
                   if truthy msg then Inl AttributeError else extract_loop h' sub' fl fp rest)
            else extract_loop h sub fl fp rest)"
  using assms by (auto simp: kept_def split: option.splits)

lemma extract_loop_frame:
  assumes "distinct rest" and "set (nodes sub) \<inter> set rest = {}"
    and "\<forall>m \<in> set (nodes sub) \<union> set rest. level (h m) \<noteq> None"
  shows "\<exists>h' sub'. extract_loop h sub fl fp rest = Inr (h', sub') \<and>
           (\<forall>r. r \<notin> set rest \<longrightarrow> h' r = h r) \<and>
           (\<forall>k. k \<notin> set rest \<longrightarrow> map_of (graph_dict sub') k = map_of (graph_dict sub) k) \<and>
           set (nodes sub) \<subseteq> set (nodes sub')"
  using assms
proof (induction rest arbitrary: h sub)
  case Nil
  then show ?case by simp
next
  case (Cons x rest)
  have lx: "level (h x) \<noteq> None" using Cons.prems(3) by simp
  show ?case
  proof (cases "kept h fl fp x")
    case False
    have "\<exists>h' sub'. extract_loop h sub fl fp rest = Inr (h', sub') \<and>
           (\<forall>r. r \<notin> set rest \<longrightarrow> h' r = h r) \<and>
           (\<forall>k. k \<notin> set rest \<longrightarrow> map_of (graph_dict sub') k = map_of (graph_dict sub) k) \<and>
           set (nodes sub) \<subseteq> set (nodes sub')"
      using Cons.prems by (intro Cons.IH) auto
    then show ?thesis
      using False by (auto simp: extract_loop_Cons_levelled [where h = h and x = x, OF lx] simp del: extract_loop.simps)
  next
    case True
    have xn: "x \<notin> set (nodes sub)" using Cons.prems(2) by auto
    have "\<forall>n \<in> set (nodes sub) \<union> {x}. level (h n) \<noteq> None" using Cons.prems(3) by auto
    from add_node_levelled [OF xn this]
    obtain lv sub1 where a: "add_node h sub x = Inr (None, h(x := (h x)\<lparr>level := Some lv\<rparr>), sub1)"
      "nodes sub1 = nodes sub @ [x]"
      "\<forall>k. k \<noteq> x \<longrightarrow> map_of (graph_dict sub1) k = map_of (graph_dict sub) k"
      by blast
    let ?h1 = "h(x := (h x)\<lparr>level := Some lv\<rparr>)"
    have "\<exists>h' sub'. extract_loop ?h1 sub1 fl fp rest = Inr (h', sub') \<and>
           (\<forall>r. r \<notin> set rest \<longrightarrow> h' r = ?h1 r) \<and>
           (\<forall>k. k \<notin> set rest \<longrightarrow> map_of (graph_dict sub') k = map_of (graph_dict sub1) k) \<and>
           set (nodes sub1) \<subseteq> set (nodes sub')"
      using Cons.prems a(2) by (intro Cons.IH) auto
    then obtain h' sub' where r: "extract_loop ?h1 sub1 fl fp rest = Inr (h', sub')"
      "\<forall>r. r \<notin> set rest \<longrightarrow> h' r = ?h1 r"
      "\<forall>k. k \<notin> set rest \<longrightarrow> map_of (graph_dict sub') k = map_of (graph_dict sub1) k"
      "set (nodes sub1) \<subseteq> set (nodes sub')"
      by blast
    show ?thesis
      using True a r by (auto simp: extract_loop_Cons_levelled [where h = h and x = x, OF lx] simp del: extract_loop.simps)
  qed
qed

lemma extract_loop_keeps:
  assumes "distinct rest" and "set (nodes sub) \<inter> set rest = {}"
    and "\<forall>m \<in> set (nodes sub) \<union> set rest. level (h m) \<noteq> None"
    and "n \<in> set rest" and "kept h fl fp n" and "level (h n) = Some l"
    and "depends (h n) = Some d" and "d \<noteq> []"
    and "\<forall>m \<in> set (nodes sub). neighbor_name (h m) \<noteq> d"
    and "\<forall>m \<in> set rest. kept h fl fp m \<longrightarrow> neighbor_name (h m) \<noteq> d"
  shows "\<exists>h' sub'. extract_loop h sub fl fp rest = Inr (h', sub') \<and> n \<in> set (nodes sub') \<and>
           level (h' n) = Some l \<and> map_of (graph_dict sub') n = Some None"
  using assms
proof (induction rest arbitrary: h sub)
  case Nil
  then show ?case by simp
next
  case (Cons x rest)
  have lx: "level (h x) \<noteq> None" using Cons.prems(3) by simp
  have xn: "x \<notin> set (nodes sub)" using Cons.prems(2) by auto
  have xr: "x \<notin> set rest" using Cons.prems(1) by simp
  show ?case
  proof (cases "x = n")
    case True
    have "\<forall>m \<in> set (nodes sub) \<union> {n}. neighbor_name (h m) \<noteq> d"
      using Cons.prems(5,9,10) True by auto
    with True xn Cons.prems(6,7,8)
    have a: "add_node h sub n =
        Inr (None, h, sub\<lparr>graph_dict := graph_dict sub @ [(n, None)],
                          max_proc := max (max_proc sub) (n_procs (h n))\<rparr>)"
      by (intro add_node_unmatched_levelled) auto
    let ?sub1 = "sub\<lparr>graph_dict := graph_dict sub @ [(n, None)],
                     max_proc := max (max_proc sub) (n_procs (h n))\<rparr>"
    have n1: "nodes ?sub1 = nodes sub @ [n]" by (simp add: nodes_def)
    have m1: "map_of (graph_dict ?sub1) n = Some None"
      using xn True map_of_snoc_absent [of n "graph_dict sub" None] by (simp add: nodes_def)
    have "\<exists>h' sub'. extract_loop h ?sub1 fl fp rest = Inr (h', sub') \<and>
           (\<forall>r. r \<notin> set rest \<longrightarrow> h' r = h r) \<and>
           (\<forall>k. k \<notin> set rest \<longrightarrow> map_of (graph_dict sub') k = map_of (graph_dict ?sub1) k) \<and>
           set (nodes ?sub1) \<subseteq> set (nodes sub')"
      using Cons.prems(1,2,3) True n1 by (intro extract_loop_frame) auto
    then obtain h' sub' where r: "extract_loop h ?sub1 fl fp rest = Inr (h', sub')"
      "\<forall>r. r \<notin> set rest \<longrightarrow> h' r = h r"
      "\<forall>k. k \<notin> set rest \<longrightarrow> map_of (graph_dict sub') k = map_of (graph_dict ?sub1) k"
      "set (nodes ?sub1) \<subseteq> set (nodes sub')"
      by blast
    have "n \<in> set (nodes sub')" using r(4) n1 by auto
    moreover have "level (h' n) = Some l" using r(2) xr True Cons.prems(6) by simp
    moreover have "map_of (graph_dict sub') n = Some None" using r(3) xr True m1 by simp
    moreover have "extract_loop h sub fl fp (x # rest) = Inr (h', sub')"
      using True Cons.prems(5) a r(1)
      by (simp add: extract_loop_Cons_levelled [where h = h and x = n, OF lx [unfolded True]]
          del: extract_loop.simps)
    ultimately show ?thesis by blast
  next
    case False
    then have nr: "n \<in> set rest" using Cons.prems(4) by simp
    show ?thesis
    proof (cases "kept h fl fp x")
      case nk: False
      have "\<exists>h' sub'. extract_loop h sub fl fp rest = Inr (h', sub') \<and> n \<in> set (nodes sub') \<and>
           level (h' n) = Some l \<and> map_of (graph_dict sub') n = Some None"
        using Cons.prems nr by (intro Cons.IH) auto
      then show ?thesis
        using nk by (simp add: extract_loop_Cons_levelled [where h = h and x = x, OF lx] del: extract_loop.simps)
    next
      case k: True
      have "\<forall>n \<in> set (nodes sub) \<union> {x}. level (h n) \<noteq> None" using Cons.prems(3) by auto
      from add_node_levelled [OF xn this]
      obtain lv sub1 where a: "add_node h sub x = Inr (None, h(x := (h x)\<lparr>level := Some lv\<rparr>), sub1)"
        "nodes sub1 = nodes sub @ [x]"
        by blast
      let ?h1 = "h(x := (h x)\<lparr>level := Some lv\<rparr>)"
      have eq: "m \<noteq> x \<Longrightarrow> ?h1 m = h m" for m by simp
      have keptr: "kept ?h1 fl fp m = kept h fl fp m" if "m \<in> set rest" for m
      proof -
        have "m \<noteq> x" using that xr by auto
        then show ?thesis by (simp add: kept_def split: option.splits)
      qed
      have "\<exists>h' sub'. extract_loop ?h1 sub1 fl fp rest = Inr (h', sub') \<and> n \<in> set (nodes sub') \<and>
           level (h' n) = Some l \<and> map_of (graph_dict sub') n = Some None"
      proof (intro Cons.IH)
        show "distinct rest" using Cons.prems(1) by simp
        show "set (nodes sub1) \<inter> set rest = {}" using Cons.prems(1,2) a(2) by auto
        show "\<forall>m \<in> set (nodes sub1) \<union> set rest. level (?h1 m) \<noteq> None"
          using Cons.prems(3) a(2) by auto
        show "n \<in> set rest" by (rule nr)
        show "kept ?h1 fl fp n" using keptr [OF nr] Cons.prems(5) by simp
        show "level (?h1 n) = Some l" using False Cons.prems(6) by simp
        show "depends (?h1 n) = Some d" using False Cons.prems(7) by simp
        show "d \<noteq> []" by (rule Cons.prems(8))
        show "\<forall>m \<in> set (nodes sub1). neighbor_name (?h1 m) \<noteq> d"
          using Cons.prems(9,10) a(2) k by auto
        show "\<forall>m \<in> set rest. kept ?h1 fl fp m \<longrightarrow> neighbor_name (?h1 m) \<noteq> d"
          using Cons.prems(10) keptr xr by auto
      qed
      then show ?thesis
        using k a(1) by (simp add: extract_loop_Cons_levelled [where h = h and x = x, OF lx] del: extract_loop.simps)
    qed
  qed
qed

text \<open>
  The chain A, B, C filtered on level 1 and 4 processes: B is kept and its parent A
  is not. In the sub-graph B has no edge, its level is still 1, and the extraction
  returns normally (a warning would have raised \<^verbatim>\<open>AttributeError\<close>).
\<close>

theorem sub_graph_level_counterexample:
  "map_sum id (\<lambda>(h', sub). (graph_dict sub, level (h' 1)))
     (extract_sub_graph chain_built chain_graph (Some 1) (Some 4)) = Inr ([(1, None)], Some 1)"
  by (simp add: extract_sub_graph_def init_graph_def add_node_def nodes_def add_dependency_def
      Let_def chain_heap_def new_case_def neighbor_name_def chain_built_def chain_graph_def)

text \<open>
  C6, amended. In a graph whose nodes are distinct and have their levels computed
  (as \<^verbatim>\<open>add_node\<close> leaves them), a node that passes the filters and whose \<open>depends\<close>
  is the key of no node that passes the filters is a node of the sub-graph, has no
  edge there and keeps the level it has in the full graph; the extraction returns
  normally, so no warning is issued.
\<close>

theorem extract_sub_graph_keeps_level:
  assumes "distinct (nodes g)" and "\<forall>m \<in> set (nodes g). level (h m) \<noteq> None"
    and "n \<in> set (nodes g)" and "kept h fl fp n" and "level (h n) = Some l"
    and "depends (h n) = Some d" and "d \<noteq> []"
    and "\<forall>m \<in> set (nodes g). kept h fl fp m \<longrightarrow> neighbor_name (h m) \<noteq> d"
  shows "\<exists>h' sub. extract_sub_graph h g fl fp = Inr (h', sub) \<and> n \<in> set (nodes sub) \<and>
           level (h' n) = Some l \<and> map_of (graph_dict sub) n = Some None"
  unfolding extract_sub_graph_def
  using assms by (intro extract_loop_keeps) (auto simp: init_graph_def nodes_def)

theorem extract_sub_graph_keeps_level_witness:
  "\<exists>h' sub. extract_sub_graph chain_built chain_graph (Some 1) (Some 4) = Inr (h', sub) \<and>
     1 \<in> set (nodes sub) \<and> level (h' 1) = Some 1 \<and> map_of (graph_dict sub) 1 = Some None"
  using extract_sub_graph_keeps_level
    [of chain_graph chain_built 1 "Some 1" "Some 4" 1 "''S/A/RESU/run1''"]
  by (simp add: chain_built_def chain_graph_def chain_heap_def new_case_def nodes_def kept_def
      neighbor_name_def)

subsection \<open>Consistent graphs\<close>

text \<open>
  The empty graph is consistent, and \<^verbatim>\<open>add_node\<close> keeps a graph consistent when it
  adds a new case with at least one process whose key differs from the keys of the
  nodes and which does not name itself: the graphs that the study manager builds
  from cases with distinct keys are consistent.
\<close>

lemma settled_cong:
  "\<forall>n \<in> set seen \<union> set ns. h' n = h n \<Longrightarrow> settled h' seen ns = settled h seen ns"
proof (induction ns arbitrary: seen)
  case Nil
  then show ?case by simp
next
  case (Cons x ns)
  have "settled h' (seen @ [x]) ns = settled h (seen @ [x]) ns"
    using Cons.prems by (intro Cons.IH) auto
  moreover have "h' x = h x" using Cons.prems by simp
  moreover have "\<forall>m \<in> set (seen @ [x]). h' m = h m" using Cons.prems by simp
  ultimately show ?case by (simp split: option.splits)
qed

lemma settled_snoc:
  "settled h seen (xs @ [c]) = (settled h seen xs \<and> settled h (seen @ xs) [c])"
proof (induction xs arbitrary: seen)
  case Nil
  then show ?case by simp
next
  case (Cons a xs)
  have "settled h seen ((a # xs) @ [c]) =
          (settled h seen [a] \<and> settled h (seen @ [a]) (xs @ [c]))"
    by simp
  also have "\<dots> = (settled h seen [a] \<and> settled h (seen @ [a]) xs \<and>
                     settled h ((seen @ [a]) @ xs) [c])"
    by (simp only: Cons.IH [of "seen @ [a]"])
  also have "\<dots> = (settled h seen (a # xs) \<and> settled h (seen @ a # xs) [c])"
    by (simp del: settled.simps(2) add: settled.simps(2) [of h seen a xs]
        settled.simps(2) [of h seen a "[]"])
  finally show ?case .
qed

lemma scan_neighbors_first_match:
  assumes "map_of (graph_dict g) c = Some None"
    and "\<forall>n \<in> set ns. neighbor_name (h n) = d \<longrightarrow> level (h n) \<noteq> None"
  shows "(scan_neighbors h g c d ns = Inr (h, g) \<and> (\<forall>n \<in> set ns. neighbor_name (h n) \<noteq> d)) \<or>
         (\<exists>n l. n \<in> set ns \<and> neighbor_name (h n) = d \<and> level (h n) = Some l \<and>
            scan_neighbors h g c d ns =
              Inr (h(c := (h c)\<lparr>level := Some (l + 1)\<rparr>),
                   g\<lparr>graph_dict := AList.update c (Some n) (graph_dict g),
                     max_level := max (max_level g) (l + 1)\<rparr>))"
  using assms(2)
proof (induction ns)
  case Nil
  then show ?case by simp
next
  case (Cons a ns)
  show ?case
  proof (cases "neighbor_name (h a) = d")
    case True
    obtain y where y: "level (h a) = Some y" using Cons.prems True by auto
    have "scan_neighbors h g c d (a # ns) =
            Inr (h(c := (h c)\<lparr>level := Some (y + 1)\<rparr>),
                 g\<lparr>graph_dict := AList.update c (Some a) (graph_dict g),
                   max_level := max (max_level g) (y + 1)\<rparr>)"
      using True y assms(1) by (simp add: add_dependency_def)
    moreover have "a \<in> set (a # ns)" by simp
    ultimately show ?thesis
      using True y by blast
  next
    case False
    have "\<forall>n \<in> set ns. neighbor_name (h n) = d \<longrightarrow> level (h n) \<noteq> None"
      using Cons.prems by simp
    from Cons.IH [OF this] show ?thesis
    proof (elim disjE exE conjE)
      assume "scan_neighbors h g c d ns = Inr (h, g)"
        and "\<forall>n \<in> set ns. neighbor_name (h n) \<noteq> d"
      then show ?thesis using False by simp
    next
      fix n l
      assume "n \<in> set ns" and "neighbor_name (h n) = d" and "level (h n) = Some l"
        and "scan_neighbors h g c d ns =
              Inr (h(c := (h c)\<lparr>level := Some (l + 1)\<rparr>),
                   g\<lparr>graph_dict := AList.update c (Some n) (graph_dict g),
                     max_level := max (max_level g) (l + 1)\<rparr>)"
      then have "n \<in> set (a # ns)" and "neighbor_name (h n) = d" and "level (h n) = Some l"
        and "scan_neighbors h g c d (a # ns) =
              Inr (h(c := (h c)\<lparr>level := Some (l + 1)\<rparr>),
                   g\<lparr>graph_dict := AList.update c (Some n) (graph_dict g),
                     max_level := max (max_level g) (l + 1)\<rparr>)"
        using False by simp_all
      then show ?thesis by blast
    qed
  qed
qed

lemma consistent_extend:
  assumes gc: "graph_consistent h g" and fresh: "c \<notin> set (nodes g)"
    and h': "h' = h(c := (h c)\<lparr>level := Some lc\<rparr>)"
    and ns: "nodes g' = nodes g @ [c]"
    and ml: "max_level g \<le> max_level g'" "0 \<le> lc" "lc \<le> max_level g'"
    and mp: "max_proc g' = max (max_proc g) (n_procs (h c))" "1 \<le> n_procs (h c)"
    and cond: "case depends (h c) of
                 None \<Rightarrow> lc = 0
               | Some d \<Rightarrow> if d = [] then lc = 0
                   else (\<forall>m \<in> set (nodes g). level (h m) = Some lc \<longrightarrow> neighbor_name (h m) \<noteq> d)
                        \<and> neighbor_name (h c) \<noteq> d"
  shows "graph_consistent h' g'"
proof -
  have old: "m \<in> set (nodes g) \<Longrightarrow> h' m = h m" for m
    using fresh h' by auto
  have new: "level (h' c) = Some lc" "depends (h' c) = depends (h c)"
    "neighbor_name (h' c) = neighbor_name (h c)" "n_procs (h' c) = n_procs (h c)"
    using h' by simp_all
  have s1: "settled h' [] (nodes g)"
    using gc old settled_cong [of "[]" "nodes g" h' h] by (simp add: graph_consistent_def)
  have s2: "settled h' (nodes g) [c]"
    using fresh new cond old by (auto split: option.splits)
  have "settled h' [] (nodes g')"
    using s1 s2 by (simp add: ns settled_snoc)
  moreover have "\<forall>n \<in> set (nodes g').
         (case level (h' n) of None \<Rightarrow> False | Some l \<Rightarrow> 0 \<le> l \<and> l \<le> max_level g') \<and>
         1 \<le> n_procs (h' n) \<and> n_procs (h' n) \<le> max_proc g'"
  proof
    fix n assume "n \<in> set (nodes g')"
    then consider "n = c" | "n \<in> set (nodes g)" using ns by auto
    then show "(case level (h' n) of None \<Rightarrow> False | Some l \<Rightarrow> 0 \<le> l \<and> l \<le> max_level g') \<and>
         1 \<le> n_procs (h' n) \<and> n_procs (h' n) \<le> max_proc g'"
    proof cases
      case 1
      then show ?thesis using new ml mp by simp
    next
      case 2
      then have "(case level (h n) of None \<Rightarrow> False | Some l \<Rightarrow> 0 \<le> l \<and> l \<le> max_level g) \<and>
         1 \<le> n_procs (h n) \<and> n_procs (h n) \<le> max_proc g"
        using gc by (simp add: graph_consistent_def)
      then show ?thesis using old [OF 2] ml(1) mp(1) by (auto split: option.splits)
    qed
  qed
  ultimately show ?thesis by (simp add: graph_consistent_def)
qed

lemma add_node_consistent:
  assumes gc: "graph_consistent h g" and ml: "0 \<le> max_level g"
    and fresh: "c \<notin> set (nodes g)" "level (h c) = None"
    and np: "1 \<le> n_procs (h c)"
    and keys: "distinct (map (\<lambda>n. neighbor_name (h n)) (nodes g @ [c]))"
    and noself: "depends (h c) \<noteq> Some (neighbor_name (h c))"
  shows "\<exists>w h' g'. add_node h g c = Inr (w, h', g') \<and> graph_consistent h' g' \<and>
           0 \<le> max_level g' \<and> nodes g' = nodes g @ [c] \<and>
           (\<forall>r. neighbor_name (h' r) = neighbor_name (h r)) \<and>
           (\<forall>r. r \<noteq> c \<longrightarrow> h' r = h r)"
proof -
  let ?gd = "graph_dict g @ [(c, None)]"
  let ?g1 = "g\<lparr>graph_dict := ?gd\<rparr>"
  have upd: "AList.update c None (graph_dict g) = ?gd"
    using fresh(1) by (simp add: map_of_update_absent nodes_def)
  have c_none: "map_of (graph_dict ?g1) c = Some None"
    using fresh(1) map_of_snoc_absent [of c "graph_dict g" None] by (simp add: nodes_def)
  have n1: "nodes ?g1 = nodes g @ [c]" by (simp add: nodes_def)
  have levelled: "\<exists>l. level (h n) = Some l \<and> 0 \<le> l \<and> l \<le> max_level g"
    if "n \<in> set (nodes g)" for n
  proof -
    have "case level (h n) of None \<Rightarrow> False | Some l \<Rightarrow> 0 \<le> l \<and> l \<le> max_level g"
      using gc that by (simp add: graph_consistent_def)
    then show ?thesis by (cases "level (h n)") simp_all
  qed
  have frame: "(\<forall>r. neighbor_name ((h(c := (h c)\<lparr>level := Some lc\<rparr>)) r) = neighbor_name (h r)) \<and>
           (\<forall>r. r \<noteq> c \<longrightarrow> (h(c := (h c)\<lparr>level := Some lc\<rparr>)) r = h r)" for lc
    by simp
  show ?thesis
  proof (cases "depends (h c) = None \<or> depends (h c) = Some []")
    case True
    let ?h' = "h(c := (h c)\<lparr>level := Some 0\<rparr>)"
    let ?g' = "?g1\<lparr>max_proc := max (max_proc g) (n_procs (h c))\<rparr>"
    have a: "add_node h g c = Inr (None, ?h', ?g')"
      using fresh(1) True by (auto simp: add_node_def upd)
    have cond: "case depends (h c) of
                 None \<Rightarrow> (0::int) = 0
               | Some d \<Rightarrow> if d = [] then (0::int) = 0
                   else (\<forall>m \<in> set (nodes g). level (h m) = Some 0 \<longrightarrow> neighbor_name (h m) \<noteq> d)
                        \<and> neighbor_name (h c) \<noteq> d"
      using True by auto
    have "graph_consistent ?h' ?g'"
      by (rule consistent_extend [OF gc fresh(1) refl _ _ _ _ _ np cond])
         (simp_all add: nodes_def ml)
    then show ?thesis using a ml frame [of 0] by (simp add: nodes_def)
  next
    case False
    then obtain d where d: "depends (h c) = Some d" "d \<noteq> []" by auto
    have cd: "neighbor_name (h c) \<noteq> d" using noself d by auto
    have "\<forall>n \<in> set (nodes ?g1). neighbor_name (h n) = d \<longrightarrow> level (h n) \<noteq> None"
    proof (intro ballI impI)
      fix n assume "n \<in> set (nodes ?g1)" and "neighbor_name (h n) = d"
      then have "n \<in> set (nodes g)" using cd n1 by auto
      then show "level (h n) \<noteq> None" using levelled by auto
    qed
    from scan_neighbors_first_match [OF c_none this]
    show ?thesis
    proof (elim disjE exE conjE)
      assume scan: "scan_neighbors h ?g1 c d (nodes ?g1) = Inr (h, ?g1)"
        and nomatch: "\<forall>n \<in> set (nodes ?g1). neighbor_name (h n) \<noteq> d"
      let ?h' = "h(c := (h c)\<lparr>level := Some 0\<rparr>)"
      let ?g' = "?g1\<lparr>max_proc := max (max_proc g) (n_procs (h c))\<rparr>"
      have a: "add_node h g c = Inr (Some (dangling_msg d (title (h c))), ?h', ?g')"
        using fresh d scan by (simp add: add_node_def upd)
      have "\<forall>m \<in> set (nodes g). neighbor_name (h m) \<noteq> d"
        using nomatch n1 by simp
      then have cond: "case depends (h c) of
                 None \<Rightarrow> (0::int) = 0
               | Some d \<Rightarrow> if d = [] then (0::int) = 0
                   else (\<forall>m \<in> set (nodes g). level (h m) = Some 0 \<longrightarrow> neighbor_name (h m) \<noteq> d)
                        \<and> neighbor_name (h c) \<noteq> d"
        using d cd by simp
      have "graph_consistent ?h' ?g'"
        by (rule consistent_extend [OF gc fresh(1) refl _ _ _ _ _ np cond])
           (simp_all add: nodes_def ml)
      then show ?thesis using a ml frame [of 0] by (simp add: nodes_def)
    next
      fix n l
      assume n: "n \<in> set (nodes ?g1)" "neighbor_name (h n) = d" "level (h n) = Some l"
        and scan: "scan_neighbors h ?g1 c d (nodes ?g1) =
              Inr (h(c := (h c)\<lparr>level := Some (l + 1)\<rparr>),
                   ?g1\<lparr>graph_dict := AList.update c (Some n) (graph_dict ?g1),
                     max_level := max (max_level ?g1) (l + 1)\<rparr>)"
      let ?h' = "h(c := (h c)\<lparr>level := Some (l + 1)\<rparr>)"
      let ?g' = "g\<lparr>graph_dict := AList.update c (Some n) ?gd,
                    max_level := max (max_level g) (l + 1),
                    max_proc := max (max_proc g) (n_procs (h c))\<rparr>"
      have a: "add_node h g c = Inr (None, ?h', ?g')"
        using fresh(1) d scan by (simp add: add_node_def upd)
      have ng: "n \<in> set (nodes g)" using n(1,2) cd n1 by auto
      have l0: "0 \<le> l" using levelled [OF ng] n(3) by simp
      have nodes': "nodes ?g' = nodes g @ [c]"
        using nodes_snoc_update [OF fresh(1), of "Some n"] by (simp add: nodes_def)
      have inj: "inj_on (\<lambda>n. neighbor_name (h n)) (set (nodes g @ [c]))"
        using keys by (simp only: distinct_map)
      have uniq: "m = n" if "m \<in> set (nodes g)" "neighbor_name (h m) = d" for m
      proof -
        have "m \<in> set (nodes g @ [c])" "n \<in> set (nodes g @ [c])" using that(1) ng by simp_all
        moreover have "neighbor_name (h m) = neighbor_name (h n)" using that(2) n(2) by simp
        ultimately show ?thesis using inj_onD [OF inj, of m n] by simp
      qed
      have "\<forall>m \<in> set (nodes g). level (h m) = Some (l + 1) \<longrightarrow> neighbor_name (h m) \<noteq> d"
      proof (intro ballI impI notI)
        fix m assume "m \<in> set (nodes g)" "level (h m) = Some (l + 1)" "neighbor_name (h m) = d"
        then show False using uniq [of m] n(3) by simp
      qed
      then have cond: "case depends (h c) of
                 None \<Rightarrow> l + 1 = 0
               | Some d \<Rightarrow> if d = [] then l + 1 = 0
                   else (\<forall>m \<in> set (nodes g). level (h m) = Some (l + 1) \<longrightarrow> neighbor_name (h m) \<noteq> d)
                        \<and> neighbor_name (h c) \<noteq> d"
        using d cd by simp
      have "graph_consistent ?h' ?g'"
        by (rule consistent_extend [OF gc fresh(1) refl nodes' _ _ _ _ np cond])
           (simp_all add: l0)
      then show ?thesis using a ml nodes' frame [of "l + 1"] by simp
    qed
  qed
qed

lemma init_graph_consistent: "graph_consistent h init_graph \<and> 0 \<le> max_level init_graph"
  by (simp add: graph_consistent_def init_graph_def nodes_def)

section \<open>Properties of class Case\<close>

subsection \<open>Inferred dependencies\<close>

text \<open>
  C7. For an inferred dependency \<open>d\<close>: when its run directory exists and the state
  found there is not \<open>FINALIZED\<close>, the dependency is returned and the case has
  \<open>no_restart\<close> set and \<open>compute\<close>, \<open>compare\<close>, \<open>plot\<close> cleared; when the directory does
  not exist, the dependency is returned and the case is untouched; when the state is
  \<open>FINALIZED\<close>, no dependency is returned (and the case is untouched).
\<close>

theorem query_dependence_restart_defense:
  assumes "inferred = Some d" and "d \<noteq> []"
  shows "(isdir (run_folder d) \<and> get_case_state (run_folder d) (subdomains self \<noteq> None) \<noteq> FINALIZED \<longrightarrow>
            query_dependence run_folder isdir get_case_state self inferred =
              (Some d, self\<lparr>no_restart := True, compute := False, compare := False, plot := False\<rparr>)) \<and>
         (\<not> isdir (run_folder d) \<longrightarrow>
            query_dependence run_folder isdir get_case_state self inferred = (Some d, self)) \<and>
         (isdir (run_folder d) \<and> get_case_state (run_folder d) (subdomains self \<noteq> None) = FINALIZED \<longrightarrow>
            query_dependence run_folder isdir get_case_state self inferred = (None, self))"
  using assms by (simp add: query_dependence_def Let_def)

theorem query_dependence_restart_defense_witness:
  "query_dependence (\<lambda>d. ''/work/'' @ d) (\<lambda>p. True) (\<lambda>p c. RUNNING) (chain_heap 1)
       (Some ''S/A/RESU/run1'') =
     (Some ''S/A/RESU/run1'',
      (chain_heap 1)\<lparr>no_restart := True, compute := False, compare := False, plot := False\<rparr>) \<and>
   query_dependence (\<lambda>d. ''/work/'' @ d) (\<lambda>p. False) (\<lambda>p c. RUNNING) (chain_heap 1)
       (Some ''S/A/RESU/run1'') = (Some ''S/A/RESU/run1'', chain_heap 1) \<and>
   query_dependence (\<lambda>d. ''/work/'' @ d) (\<lambda>p. True) (\<lambda>p c. FINALIZED) (chain_heap 1)
       (Some ''S/A/RESU/run1'') = (None, chain_heap 1)"
  using query_dependence_restart_defense
      [of "Some ''S/A/RESU/run1''" "''S/A/RESU/run1''" "\<lambda>p. True" "\<lambda>d. ''/work/'' @ d"
          "\<lambda>p c. RUNNING" "chain_heap 1"]
    query_dependence_restart_defense
      [of "Some ''S/A/RESU/run1''" "''S/A/RESU/run1''" "\<lambda>p. False" "\<lambda>d. ''/work/'' @ d"
          "\<lambda>p c. RUNNING" "chain_heap 1"]
    query_dependence_restart_defense
      [of "Some ''S/A/RESU/run1''" "''S/A/RESU/run1''" "\<lambda>p. True" "\<lambda>d. ''/work/'' @ d"
          "\<lambda>p c. FINALIZED" "chain_heap 1"]
  by simp

subsection \<open>Exit code of a run\<close>

text \<open>
  With memory logging on, an exit code of 2 is the leak flag alone: the method
  subtracts it, returns \<open>(0, True)\<close> and leaves \<open>compare\<close> and \<open>plot\<close> on, although the
  command returned a non-zero exit code.
\<close>

theorem run_leak_only_counterexample:
  "fst (run chain_heap 0 True (2, ''12.5'')) = (0, True) \<and>
   compare (snd (run chain_heap 0 True (2, ''12.5'')) 0) \<and>
   plot (snd (run chain_heap 0 True (2, ''12.5'')) 0)"
  by (simp add: run_def chain_heap_def new_case_def Let_def)

text \<open>
  C8, amended. The code that decides is the exit code after the leak flag (value 2)
  has been subtracted, which happens only when memory logging is on and that bit is
  set. When it is not zero, \<open>compare\<close> and \<open>plot\<close> of the case are cleared; when it is
  zero they are unchanged; \<open>compute\<close> is never changed and no other case is touched.
\<close>

theorem run_failure_flags:
  assumes "run h self mem_log (code, t) = ((err, leak), h')"
  shows "err = (if mem_log \<and> code AND 2 \<noteq> 0 then code - 2 else code) \<and>
         (err \<noteq> 0 \<longrightarrow> \<not> compare (h' self) \<and> \<not> plot (h' self)) \<and>
         (err = 0 \<longrightarrow> compare (h' self) = compare (h self) \<and> plot (h' self) = plot (h self)) \<and>
         compute (h' self) = compute (h self) \<and>
         (\<forall>r. r \<noteq> self \<longrightarrow> h' r = h r)"
  using assms by (auto simp add: run_def Let_def split: if_splits)

theorem run_failure_flags_witness:
  "\<exists>leak h'. run chain_heap 0 False (1, ''12.5'') = ((1, leak), h') \<and>
     \<not> compare (h' 0) \<and> \<not> plot (h' 0) \<and> compute (h' 0) \<and> h' 1 = chain_heap 1"
proof -
  obtain err leak h' where r: "run chain_heap 0 False (1, ''12.5'') = ((err, leak), h')"
    by (metis prod.exhaust)
  from run_failure_flags [OF r] have "err = 1" by simp
  with run_failure_flags [OF r] r show ?thesis
    by (auto simp: chain_heap_def new_case_def)
qed

subsection \<open>Staging a coupled case\<close>

lemma stage_subdomains_retval:
  "fst (stage_subdomains cmd subs listing (r, t)) =
     fold min (map (\<lambda>node. fst (cmd node)) (filter (\<lambda>node. node \<in> set subs) listing)) r"
  by (induction listing arbitrary: r t) (auto split: prod.splits simp: min.commute)

lemma stage_subdomains_time:
  "snd (stage_subdomains cmd subs listing (r, t)) = None \<longleftrightarrow>
     t = None \<and> filter (\<lambda>node. node \<in> set subs) listing = []"
  by (induction listing arbitrary: r t) (auto split: prod.splits)

lemma fold_min_le: "fold min xs (r::int) \<le> r"
proof (induction xs arbitrary: r)
  case Nil then show ?case by simp
next
  case (Cons y ys)
  have "fold min ys (min y r) \<le> min y r" by (rule Cons.IH)
  then show ?case by simp
qed

lemma fold_min_le_elem: "x \<in> set xs \<Longrightarrow> fold min xs (r::int) \<le> x"
proof (induction xs arbitrary: r)
  case Nil then show ?case by simp
next
  case (Cons y ys)
  show ?case
  proof (cases "x = y")
    case True
    have "fold min ys (min y r) \<le> min y r" by (rule fold_min_le)
    then show ?thesis using True by simp
  next
    case False
    with Cons show ?thesis by simp
  qed
qed

lemma fold_min_zero: "\<forall>x \<in> set xs. x = 0 \<Longrightarrow> xs \<noteq> [] \<Longrightarrow> fold min xs (1::int) = 0"
proof -
  have a: "\<forall>x \<in> set xs. x = 0 \<Longrightarrow> fold min xs (0::int) = 0" for xs
    by (induction xs) auto
  show "\<forall>x \<in> set xs. x = 0 \<Longrightarrow> xs \<noteq> [] \<Longrightarrow> fold min xs (1::int) = 0"
    by (cases xs) (auto simp: a)
qed

text \<open>
  A case that is not coupled fails its staging on any exit code other than 0: here
  the code is 1, the line says FAILED and \<open>compute\<close> is cleared.
\<close>

lemma single_staging_fails:
  "prepare_run_folder (\<lambda>node. (1, ''0.50'')) [] False False ''run.log'' single_case =
     Inr ([''      * prepare run folder: S/ONE/RESU/run1 --> FAILED (0.50 s)'',
           ''        - see run.log''], single_case\<lparr>compute := False\<rparr>)"
  by (simp add: prepare_run_folder_def single_case_def new_case_def)


text \<open>
  What the reduction does in general. For a coupled case the overall return code is
  the least of 1 and the return codes of the staged subdomains; the staging is
  reported as done exactly when that least value is 0, and otherwise \<open>compute\<close> is
  cleared. When no entry of the listing is a subdomain nothing is staged and the log
  line reads the unbound \<^verbatim>\<open>t\<close>.
\<close>

lemma coupled_staging_result:
  assumes "subdomains self = Some subs" and "subs \<noteq> []"
    and "codes = map (\<lambda>node. fst (cmd node)) (filter (\<lambda>node. node \<in> set subs) listing)"
  shows "fst (stage_subdomains cmd subs listing (1, None)) = fold min codes 1"
    and "codes = [] \<Longrightarrow> prepare_run_folder cmd listing sp cl log_path self = Inl NameError"
    and "codes \<noteq> [] \<Longrightarrow>
           \<exists>ls. prepare_run_folder cmd listing sp cl log_path self =
                  Inr (ls, if fold min codes 1 = 0 then self else self\<lparr>compute := False\<rparr>)"
proof -
  show r: "fst (stage_subdomains cmd subs listing (1, None)) = fold min codes 1"
    by (simp add: stage_subdomains_retval assms(3))
  obtain rv tv where st: "stage_subdomains cmd subs listing (1, None) = (rv, tv)"
    by (cases "stage_subdomains cmd subs listing (1, None)")
  have rv: "rv = fold min codes 1" using r st by simp
  have tv: "tv = None \<longleftrightarrow> codes = []"
    using stage_subdomains_time [of cmd subs listing 1 None] st assms(3) by simp
  show "prepare_run_folder cmd listing sp cl log_path self = Inl NameError" if "codes = []"
    using that tv assms(1,2) st by (simp add: prepare_run_folder_def)
  show "\<exists>ls. prepare_run_folder cmd listing sp cl log_path self =
              Inr (ls, if fold min codes 1 = 0 then self else self\<lparr>compute := False\<rparr>)"
    if ne: "codes \<noteq> []"
  proof -
    obtain ts where "tv = Some ts" using ne tv by (cases tv) auto
    then show ?thesis
      using assms(1,2) st rv by (auto simp: prepare_run_folder_def)
  qed
qed

lemma coupled_staging_negative_fails:
  assumes "subdomains self = Some subs" and "subs \<noteq> []"
    and "codes = map (\<lambda>node. fst (cmd node)) (filter (\<lambda>node. node \<in> set subs) listing)"
    and "x \<in> set codes" and "x < 0"
  shows "\<exists>ls. prepare_run_folder cmd listing sp cl log_path self =
              Inr (ls, self\<lparr>compute := False\<rparr>)"
proof -
  have "fold min codes 1 < 0" using fold_min_le_elem [OF assms(4), of 1] assms(5) by simp
  moreover have "codes \<noteq> []" using assms(4) by auto
  ultimately show ?thesis
    using coupled_staging_result(3) [OF assms(1-3), of sp cl log_path] by auto
qed

section \<open>Properties of the slurm batches\<close>

subsection \<open>Packing one cell\<close>

lemma stamp_job_id_fields:
  "expected_time (stamp_job_id h cs j x) = expected_time (h x) \<and>
   compute (stamp_job_id h cs j x) = compute (h x) \<and>
   is_compiled (stamp_job_id h cs j x) = is_compiled (h x)"
  by (induction cs arbitrary: h) auto

lemma append_case_ok:
  assumes "has_parent g lev c"
  shows "\<exists>s'. append_case h g lev c s = Inr s' \<and>
           batch_view s' =
             (cur_batch_size s + 1, batch_total_time s + expected_time (h c),
              cases_list s @ [c], map (\<lambda>b. (sb_cases b, sb_minutes b)) (submitted s)) \<and>
           cur_batch_id s' = cur_batch_id s"
  using assms
  by (auto simp: append_case_def has_parent_def batch_view_def Let_def split: option.splits)

lemma submit_batch_ok:
  assumes "sbatch (cur_batch_id s) = JobId j"
  shows "\<exists>s'. submit_batch sbatch lev nproc h s = Inr (stamp_job_id h (cases_list s) j, s') \<and>
           batch_view s' =
             (0, 0, [], map (\<lambda>b. (sb_cases b, sb_minutes b)) (submitted s)
                        @ [(cases_list s, batch_total_time s)])"
  using assms by (simp add: submit_batch_def batch_view_def)

lemma pack_case_view:
  assumes ok: "compute (h c)" "is_compiled (h c) \<noteq> ''KO''" "has_parent g lev c"
    and jobs: "\<forall>i. \<exists>j. sbatch i = JobId j"
  shows "\<exists>h' s'. pack_case sbatch opts g lev nproc h s c = Inr (h', s') \<and>
           batch_view s' = pack_view opts (expected_time (h c)) c (batch_view s) \<and>
           (\<forall>x. expected_time (h' x) = expected_time (h x) \<and> compute (h' x) = compute (h x) \<and>
                is_compiled (h' x) = is_compiled (h x))"
proof (cases "cur_batch_size s = 0 \<or>
              batch_total_time s + expected_time (h c) < slurm_batch_wtime opts")
  case True
  obtain s1 where s1: "append_case h g lev c s = Inr s1"
    "batch_view s1 = (cur_batch_size s + 1, batch_total_time s + expected_time (h c),
        cases_list s @ [c], map (\<lambda>b. (sb_cases b, sb_minutes b)) (submitted s))"
    using append_case_ok [OF ok(3)] by blast
  have f1: "cur_batch_size s1 = cur_batch_size s + 1"
    "batch_total_time s1 = batch_total_time s + expected_time (h c)"
    "cases_list s1 = cases_list s @ [c]"
    "map (\<lambda>b. (sb_cases b, sb_minutes b)) (submitted s1) = map (\<lambda>b. (sb_cases b, sb_minutes b)) (submitted s)"
    using s1(2) by (simp_all add: batch_view_def)
  show ?thesis
  proof (cases "cur_batch_size s1 \<ge> slurm_batch_size opts \<or>
                batch_total_time s1 \<ge> slurm_batch_wtime opts")
    case sub: True
    obtain j where j: "sbatch (cur_batch_id s1) = JobId j" using jobs by blast
    obtain s2 where s2: "submit_batch sbatch lev nproc h s1 = Inr (stamp_job_id h (cases_list s1) j, s2)"
      "batch_view s2 = (0, 0, [], map (\<lambda>b. (sb_cases b, sb_minutes b)) (submitted s1)
                        @ [(cases_list s1, batch_total_time s1)])"
      using submit_batch_ok [where sbatch = sbatch and s = s1, OF j] by blast
    show ?thesis
      using True sub ok(1,2) s1(1) s2 f1
      by (auto simp: pack_case_def batch_view_def stamp_job_id_fields)
  next
    case nosub: False
    show ?thesis
      using True nosub ok(1,2) s1 f1
      by (auto simp: pack_case_def batch_view_def)
  qed
next
  case False
  obtain j where j: "sbatch (cur_batch_id s) = JobId j" using jobs by blast
  obtain s2 where s2: "submit_batch sbatch lev nproc h s = Inr (stamp_job_id h (cases_list s) j, s2)"
    "batch_view s2 = (0, 0, [], map (\<lambda>b. (sb_cases b, sb_minutes b)) (submitted s)
                        @ [(cases_list s, batch_total_time s)])"
    using submit_batch_ok [where sbatch = sbatch and s = s, OF j] by blast
  let ?h2 = "stamp_job_id h (cases_list s) j"
  obtain s3 where s3: "append_case ?h2 g lev c s2 = Inr s3"
    "batch_view s3 = (cur_batch_size s2 + 1, batch_total_time s2 + expected_time (?h2 c),
        cases_list s2 @ [c], map (\<lambda>b. (sb_cases b, sb_minutes b)) (submitted s2))"
    using append_case_ok [OF ok(3)] by blast
  have f2: "cur_batch_size s2 = 0" "batch_total_time s2 = 0" "cases_list s2 = []"
    "map (\<lambda>b. (sb_cases b, sb_minutes b)) (submitted s2) =
       map (\<lambda>b. (sb_cases b, sb_minutes b)) (submitted s) @ [(cases_list s, batch_total_time s)]"
    using s2(2) by (simp_all add: batch_view_def)
  show ?thesis
    using False ok(1,2) s2(1) s3 f2
    by (auto simp: pack_case_def batch_view_def stamp_job_id_fields)
qed

lemma pack_loop_view:
  assumes "\<forall>c \<in> set cs. compute (h c) \<and> is_compiled (h c) \<noteq> ''KO'' \<and> has_parent g lev c"
    and jobs: "\<forall>i. \<exists>j. sbatch i = JobId j"
  shows "\<exists>h' s'. pack_loop sbatch opts g lev nproc h s cs = Inr (h', s') \<and>
           batch_view s' = fold (\<lambda>c. pack_view opts (expected_time (h c)) c) cs (batch_view s) \<and>
           (\<forall>x. expected_time (h' x) = expected_time (h x))"
  using assms(1)
proof (induction cs arbitrary: h s)
  case Nil
  then show ?case by simp
next
  case (Cons c cs)
  obtain h1 s1 where step: "pack_case sbatch opts g lev nproc h s c = Inr (h1, s1)"
    "batch_view s1 = pack_view opts (expected_time (h c)) c (batch_view s)"
    "\<forall>x. expected_time (h1 x) = expected_time (h x) \<and> compute (h1 x) = compute (h x) \<and>
         is_compiled (h1 x) = is_compiled (h x)"
    using pack_case_view [OF _ _ _ jobs, of h c g lev opts nproc s] Cons.prems by auto
  have "\<forall>c \<in> set cs. compute (h1 c) \<and> is_compiled (h1 c) \<noteq> ''KO'' \<and> has_parent g lev c"
    using Cons.prems step(3) by simp
  from Cons.IH [OF this, of s1]
  obtain h' s' where rest: "pack_loop sbatch opts g lev nproc h1 s1 cs = Inr (h', s')"
    "batch_view s' = fold (\<lambda>c. pack_view opts (expected_time (h1 c)) c) cs (batch_view s1)"
    "\<forall>x. expected_time (h' x) = expected_time (h1 x)"
    by blast
  have "(\<lambda>c. pack_view opts (expected_time (h1 c)) c) = (\<lambda>c. pack_view opts (expected_time (h c)) c)"
    using step(3) by simp
  then show ?case
    using step rest by simp
qed

lemma pack_cell_view:
  assumes "\<forall>c \<in> set cs. compute (h c) \<and> is_compiled (h c) \<noteq> ''KO'' \<and> has_parent g lev c"
    and jobs: "\<forall>i. \<exists>j. sbatch i = JobId j"
    and "fold (\<lambda>c. pack_view opts (expected_time (h c)) c) cs
           (0, 0, [], map (\<lambda>b. (sb_cases b, sb_minutes b)) (submitted s)) = (n, tot, open_cases, done)"
  shows "\<exists>h' s'. pack_cell sbatch opts g lev nproc h s cs = Inr (h', s') \<and>
           map (\<lambda>b. (sb_cases b, sb_minutes b)) (submitted s') =
             (if n > 0 then done @ [(open_cases, tot)] else done)"
proof -
  let ?s0 = "s\<lparr>batch_cmd_bound := True, cur_batch_size := 0, batch_total_time := 0,
               dep_job_id_list := [], cases_list := []\<rparr>"
  have v0: "batch_view ?s0 = (0, 0, [], map (\<lambda>b. (sb_cases b, sb_minutes b)) (submitted s))"
    by (simp add: batch_view_def)
  obtain h1 s1 where l: "pack_loop sbatch opts g lev nproc h ?s0 cs = Inr (h1, s1)"
    "batch_view s1 = (n, tot, open_cases, done)"
    using pack_loop_view [OF assms(1) jobs, of opts nproc ?s0] assms(3) v0 by auto
  have f: "cur_batch_size s1 = n" "batch_total_time s1 = tot" "cases_list s1 = open_cases"
    "map (\<lambda>b. (sb_cases b, sb_minutes b)) (submitted s1) = done"
    using l(2) by (simp_all add: batch_view_def)
  show ?thesis
  proof (cases "n > 0")
    case True
    obtain j where j: "sbatch (cur_batch_id s1) = JobId j" using jobs by blast
    from submit_batch_ok [where sbatch = sbatch and s = s1, OF j, of lev nproc h1] True l(1) f
    show ?thesis
      by (auto simp: pack_cell_def batch_view_def)
  next
    case False
    then show ?thesis using l(1) f by (simp add: pack_cell_def)
  qed
qed

text \<open>
  With the default batch size of 1 every batch is submitted as soon as it holds one
  case: the four cases of three minutes go out in four batches (the fifth
  submission is the final one for post-processing).
\<close>

theorem default_batch_size_counterexample:
  "map_sum id (\<lambda>(h, subs). map (\<lambda>b. (sb_cases b, sb_minutes b)) subs)
     (run_slurm_batches every_job \<lparr>slurm_batch_size = 1, slurm_batch_wtime = 10, n_study = 1\<rparr>
        four_graph four_heap)
   = Inr [([0], 3), ([1], 3), ([2], 3), ([3], 3), ([], 10)]"
  by (simp add: run_slurm_batches_def four_graph_def four_heap_def new_case_def every_job_def
      extract_sub_graph_def init_graph_def add_node_def nodes_def pack_cell_def pack_case_def
      append_case_def submit_batch_def Let_def)

text \<open>
  At a level above 0 the packing reads the job identifier of the dependency through
  the edge of the main graph; a case without an edge there stops the method with
  \<^verbatim>\<open>AttributeError\<close>.
\<close>

lemma pack_cell_without_edge:
  "pack_cell every_job \<lparr>slurm_batch_size = 50, slurm_batch_wtime = 10, n_study = 1\<rparr>
     four_graph 1 0 four_heap
     \<lparr>batch_cmd_bound = False, cur_batch_id = 0, tot_job_id_list = [],
      cur_batch_size = 0, batch_total_time = 0,
      dep_job_id_list = [], cases_list = [], submitted = []\<rparr> [0, 1, 2, 3] = Inl AttributeError"
  by (simp add: pack_cell_def pack_case_def append_case_def four_graph_def four_heap_def
      new_case_def Let_def)

text \<open>
  C4, amended. Four cases of one cell, three minutes each, all to be computed
  (\<open>compute\<close> on, compilation not failed), each with a dependency edge in the main
  graph when the level of the cell is above 0 (\<open>has_parent\<close>), a wall time of 10
  minutes and a batch size of at least 3, every submission accepted: the cell is
  submitted as the batch of the first three cases (9 minutes) followed by the batch
  of the fourth (3 minutes). No batch exceeds 10 minutes, and no split of the four
  times into batches of at most 10 minutes has fewer than two batches.
\<close>

theorem pack_cell_four_times_three:
  assumes "\<forall>x \<in> set [a, b, c, d]. expected_time (h x) = 3 \<and> compute (h x) \<and>
             is_compiled (h x) \<noteq> ''KO'' \<and> has_parent g lev x"
    and "\<forall>i. \<exists>j. sbatch i = JobId j"
    and "slurm_batch_wtime opts = 10" and "3 \<le> slurm_batch_size opts"
  shows "\<exists>h' s'. pack_cell sbatch opts g lev nproc h s [a, b, c, d] = Inr (h', s') \<and>
           map (\<lambda>b. (sb_cases b, sb_minutes b)) (submitted s') =
             map (\<lambda>b. (sb_cases b, sb_minutes b)) (submitted s) @ [([a, b, c], 9), ([d], 3)] \<and>
           (\<forall>parts. concat parts = map (\<lambda>x. expected_time (h x)) [a, b, c, d] \<and>
                    (\<forall>p \<in> set parts. sum_list p \<le> 10) \<longrightarrow> 2 \<le> length parts)"
proof -
  have ok: "\<forall>x \<in> set [a, b, c, d]. compute (h x) \<and> is_compiled (h x) \<noteq> ''KO'' \<and> has_parent g lev x"
    using assms(1) by simp
  have t: "expected_time (h a) = 3" "expected_time (h b) = 3" "expected_time (h c) = 3"
    "expected_time (h d) = 3"
    using assms(1) by simp_all
  let ?done = "map (\<lambda>b. (sb_cases b, sb_minutes b)) (submitted s)"
  have fold3: "fold (\<lambda>c. pack_view opts (expected_time (h c)) c) [a, b, c, d] (0, 0, [], ?done) =
          (1, 3, [d], ?done @ [([a, b, c], 9)])"
    using assms(3,4) by (simp add: t)
  have packed: "\<exists>h' s'. pack_cell sbatch opts g lev nproc h s [a, b, c, d] = Inr (h', s') \<and>
           map (\<lambda>b. (sb_cases b, sb_minutes b)) (submitted s') = ?done @ [([a, b, c], 9), ([d], 3)]"
    using pack_cell_view [OF ok assms(2), of opts s 1 3 "[d]" "?done @ [([a, b, c], 9)]" nproc] fold3
    by simp
  have minimal: "2 \<le> length parts"
    if "concat parts = map (\<lambda>x. expected_time (h x)) [a, b, c, d]"
      and "\<forall>p \<in> set parts. sum_list p \<le> 10" for parts :: "int list list"
  proof (rule ccontr)
    assume "\<not> 2 \<le> length parts"
    then consider "parts = []" | p where "parts = [p]"
      by (cases parts; cases "tl parts") auto
    then show False
    proof cases
      case 1 then show False using that(1) by simp
    next
      case 2 then show False using that by (simp add: t)
    qed
  qed
  show ?thesis using packed minimal by blast
qed

theorem pack_cell_four_times_three_witness:
  "(\<exists>h' s'. pack_cell every_job \<lparr>slurm_batch_size = 50, slurm_batch_wtime = 10, n_study = 1\<rparr>
              four_graph 0 0 four_heap
              \<lparr>batch_cmd_bound = False, cur_batch_id = 0, tot_job_id_list = [],
               cur_batch_size = 0, batch_total_time = 0,
               dep_job_id_list = [], cases_list = [], submitted = []\<rparr> [0, 1, 2, 3] = Inr (h', s') \<and>
            map (\<lambda>b. (sb_cases b, sb_minutes b)) (submitted s') = [([0, 1, 2], 9), ([3], 3)]) \<and>
   (\<exists>h' s'. pack_cell every_job \<lparr>slurm_batch_size = 3, slurm_batch_wtime = 10, n_study = 1\<rparr>
              restart_graph 1 0 restart_heap
              \<lparr>batch_cmd_bound = False, cur_batch_id = 1, tot_job_id_list = [''12345678''],
               cur_batch_size = 0, batch_total_time = 0,
               dep_job_id_list = [], cases_list = [], submitted = []\<rparr> [0, 1, 2, 3] = Inr (h', s') \<and>
            map (\<lambda>b. (sb_cases b, sb_minutes b)) (submitted s') = [([0, 1, 2], 9), ([3], 3)])"
proof -
  have cases_ok: "\<forall>x \<in> set [0, 1, 2, 3]. expected_time (four_heap x) = 3 \<and> compute (four_heap x) \<and>
      is_compiled (four_heap x) \<noteq> ''KO'' \<and> has_parent four_graph 0 x"
    by (simp add: four_heap_def new_case_def has_parent_def four_graph_def)
  have restart_ok: "\<forall>x \<in> set [0, 1, 2, 3]. expected_time (restart_heap x) = 3 \<and>
      compute (restart_heap x) \<and> is_compiled (restart_heap x) \<noteq> ''KO'' \<and>
      has_parent restart_graph 1 x"
    by (simp add: restart_heap_def new_case_def has_parent_def restart_graph_def)
  have jobs: "\<forall>i. \<exists>j. every_job i = JobId j"
    by (simp add: every_job_def)
  have level0: "\<exists>h' s'. pack_cell every_job \<lparr>slurm_batch_size = 50, slurm_batch_wtime = 10, n_study = 1\<rparr>
              four_graph 0 0 four_heap
              \<lparr>batch_cmd_bound = False, cur_batch_id = 0, tot_job_id_list = [],
               cur_batch_size = 0, batch_total_time = 0,
               dep_job_id_list = [], cases_list = [], submitted = []\<rparr> [0, 1, 2, 3] = Inr (h', s') \<and>
            map (\<lambda>b. (sb_cases b, sb_minutes b)) (submitted s') = [([0, 1, 2], 9), ([3], 3)]"
    using pack_cell_four_times_three
      [OF cases_ok jobs,
       where opts = "\<lparr>slurm_batch_size = 50, slurm_batch_wtime = 10, n_study = 1\<rparr>"
         and nproc = 0
         and s = "\<lparr>batch_cmd_bound = False, cur_batch_id = 0, tot_job_id_list = [],
                   cur_batch_size = 0,
                   batch_total_time = 0, dep_job_id_list = [], cases_list = [],
                   submitted = []\<rparr>"]
    by auto
  have level1: "\<exists>h' s'. pack_cell every_job \<lparr>slurm_batch_size = 3, slurm_batch_wtime = 10, n_study = 1\<rparr>
              restart_graph 1 0 restart_heap
              \<lparr>batch_cmd_bound = False, cur_batch_id = 1, tot_job_id_list = [''12345678''],
               cur_batch_size = 0, batch_total_time = 0,
               dep_job_id_list = [], cases_list = [], submitted = []\<rparr> [0, 1, 2, 3] = Inr (h', s') \<and>
            map (\<lambda>b. (sb_cases b, sb_minutes b)) (submitted s') = [([0, 1, 2], 9), ([3], 3)]"
    using pack_cell_four_times_three
      [OF restart_ok jobs,
       where opts = "\<lparr>slurm_batch_size = 3, slurm_batch_wtime = 10, n_study = 1\<rparr>"
         and nproc = 0
         and s = "\<lparr>batch_cmd_bound = False, cur_batch_id = 1,
                   tot_job_id_list = [''12345678''], cur_batch_size = 0,
                   batch_total_time = 0, dep_job_id_list = [], cases_list = [],
                   submitted = []\<rparr>"]
    by auto
  show ?thesis using level0 level1 by (rule conjI)
qed

text \<open>
  The whole method on the five cases of the restart example, with a batch size of 3:
  the base case at level 0, then the four cases of level 1 as three and one, each
  batch waiting for the job of the base case, then the final submission.
\<close>

lemma run_slurm_batches_restart:
  "map_sum id (\<lambda>(h, subs). map (\<lambda>b. (sb_cases b, sb_minutes b, sb_after b)) subs)
     (run_slurm_batches every_job \<lparr>slurm_batch_size = 3, slurm_batch_wtime = 10, n_study = 1\<rparr>
        restart_graph restart_heap)
   = Inr [([4], 3, []), ([0, 1, 2], 9, [Some ''12345678'']), ([3], 3, [Some ''12345678'']),
          ([], 10, [Some ''12345678'', Some ''12345678'', Some ''12345678''])]"
  by code_simp

text \<open>
  On a graph without cells (\<open>max_proc\<close> is 0) the final submission reads the unbound
  \<^verbatim>\<open>batch_cmd\<close>.
\<close>

lemma run_slurm_batches_empty_graph:
  "run_slurm_batches sbatch opts init_graph h = Inl NameError"
  by (simp add: run_slurm_batches_def init_graph_def)

subsection \<open>The default batch size\<close>

lemma extract_loop_settled:
  assumes "settled h seen rest"
    and "nodes sub = filter (kept h (Some L) (Some P)) seen"
  shows "\<exists>sub'. extract_loop h sub (Some L) (Some P) rest = Inr (h, sub') \<and>
           nodes sub' = filter (kept h (Some L) (Some P)) (seen @ rest)"
  using assms
proof (induction rest arbitrary: seen sub)
  case Nil
  then show ?case by simp
next
  case (Cons x rest)
  from Cons.prems(1) obtain l where x: "x \<notin> set seen" "level (h x) = Some l"
    and dep: "case depends (h x) of
               None \<Rightarrow> l = 0
             | Some d \<Rightarrow> if d = [] then l = 0
                 else (\<forall>m \<in> set (seen @ [x]). level (h m) = Some l \<longrightarrow> neighbor_name (h m) \<noteq> d)"
    and rest: "settled h (seen @ [x]) rest"
    by (auto split: option.splits)
  have lx: "level (h x) \<noteq> None" using x(2) by simp
  note step = extract_loop_Cons_levelled [where h = h and x = x, OF lx]
  show ?case
  proof (cases "kept h (Some L) (Some P) x")
    case False
    have "nodes sub = filter (kept h (Some L) (Some P)) (seen @ [x])"
      using Cons.prems(2) False by simp
    from Cons.IH [OF rest this] show ?thesis
      using False by (simp add: step del: extract_loop.simps)
  next
    case True
    then have lL: "l = L" using x(2) by (simp add: kept_def)
    have xn: "x \<notin> set (nodes sub)" using Cons.prems(2) x(1) by simp
    have sub_level: "\<forall>m \<in> set (nodes sub) \<union> {x}. m \<in> set (seen @ [x]) \<and> level (h m) = Some l"
      using Cons.prems(2) x(2) lL by (auto simp: kept_def)
    have a: "add_node h sub x =
        Inr (None, h, sub\<lparr>graph_dict := graph_dict sub @ [(x, None)],
                          max_proc := max (max_proc sub) (n_procs (h x))\<rparr>)"
    proof (cases "depends (h x) = None \<or> depends (h x) = Some []")
      case indep: True
      then have "l = 0" using dep by auto
      then show ?thesis
        using xn x(2) indep by (intro add_node_independent_levelled) auto
    next
      case False
      then obtain d where d: "depends (h x) = Some d" "d \<noteq> []" by auto
      then have "\<forall>m \<in> set (seen @ [x]). level (h m) = Some l \<longrightarrow> neighbor_name (h m) \<noteq> d"
        using dep by simp
      then have "\<forall>n \<in> set (nodes sub) \<union> {x}. neighbor_name (h n) \<noteq> d"
        using sub_level by blast
      then show ?thesis
        using xn x(2) d by (intro add_node_unmatched_levelled) auto
    qed
    let ?sub1 = "sub\<lparr>graph_dict := graph_dict sub @ [(x, None)],
                     max_proc := max (max_proc sub) (n_procs (h x))\<rparr>"
    have "nodes ?sub1 = filter (kept h (Some L) (Some P)) (seen @ [x])"
      using Cons.prems(2) True by (simp add: nodes_def)
    from Cons.IH [OF rest this] show ?thesis
      using True a by (simp add: step del: extract_loop.simps)
  qed
qed

lemma extract_sub_graph_settled:
  assumes "settled h [] (nodes g)"
  shows "\<exists>sub. extract_sub_graph h g (Some L) (Some P) = Inr (h, sub) \<and>
           nodes sub = filter (kept h (Some L) (Some P)) (nodes g)"
  using extract_loop_settled [OF assms, of init_graph L P]
  by (simp add: extract_sub_graph_def init_graph_def nodes_def)

lemma count_short_eq:
  "count_short h cs n = n + int (length (filter (\<lambda>c. expected_time (h c) < 5) cs))"
  by (induction cs arbitrary: n) auto

lemma check_nproc_loop_settled:
  assumes "settled h [] (nodes g)"
  shows "check_nproc_loop h g L ps n =
           Inr (h, n + sum_list (map (cell_count h (nodes g) L) ps))"
proof (induction ps arbitrary: n)
  case Nil
  then show ?case by simp
next
  case (Cons p ps)
  obtain sub where sub: "extract_sub_graph h g (Some L) (Some (p + 1)) = Inr (h, sub)"
    "nodes sub = filter (kept h (Some L) (Some (p + 1))) (nodes g)"
    using extract_sub_graph_settled [OF assms] by blast
  show ?case
    using sub Cons.IH by (simp add: count_short_eq cell_count_def)
qed

lemma check_level_loop_settled:
  assumes "settled h [] (nodes g)"
  shows "check_level_loop h g ls n =
           Inr (h, n + sum_list (map (\<lambda>L. sum_list (map (cell_count h (nodes g) L) [0..max_proc g - 1])) ls))"
proof (induction ls arbitrary: n)
  case Nil
  then show ?case by simp
next
  case (Cons L ls)
  show ?case
    using Cons.IH by (simp add: check_nproc_loop_settled [OF assms])
qed

lemma sum_list_delta:
  "distinct xs \<Longrightarrow> sum_list (map (\<lambda>x. if x = a then c else (0::int)) xs) = (if a \<in> set xs then c else 0)"
  by (induction xs) auto

lemma cell_count_Cons:
  "cell_count h (c # ns) L p =
     (if p = n_procs (h c) - 1 then
        (if L = the (level (h c)) \<and> level (h c) \<noteq> None \<and> expected_time (h c) < 5 then 1 else (0::int))
      else 0) + cell_count h ns L p"
  by (auto simp: cell_count_def kept_def)

lemma cells_cover:
  assumes "\<forall>n \<in> set ns. (case level (h n) of None \<Rightarrow> False | Some l \<Rightarrow> 0 \<le> l \<and> l \<le> M) \<and>
             1 \<le> n_procs (h n) \<and> n_procs (h n) \<le> P"
  shows "sum_list (map (\<lambda>L. sum_list (map (cell_count h ns L) [0..P - 1])) [0..M]) =
           int (length (filter (\<lambda>c. expected_time (h c) < 5) ns))"
  using assms
proof (induction ns)
  case Nil
  then show ?case by (simp add: cell_count_def)
next
  case (Cons c ns)
  obtain l where l: "level (h c) = Some l" "0 \<le> l" "l \<le> M"
    using Cons.prems by (auto split: option.splits)
  have p: "n_procs (h c) - 1 \<in> set [0..P - 1]" using Cons.prems by auto
  have inner: "sum_list (map (cell_count h (c # ns) L) [0..P - 1]) =
      (if L = l then (if expected_time (h c) < 5 then 1 else (0::int)) else 0)
      + sum_list (map (cell_count h ns L) [0..P - 1])" for L
  proof -
    have fn: "cell_count h (c # ns) L =
        (\<lambda>p. (if p = n_procs (h c) - 1
            then (if L = l \<and> expected_time (h c) < 5 then 1 else (0::int)) else 0)
          + cell_count h ns L p)"
      using l(1) by (intro ext) (simp add: cell_count_Cons)
    have "sum_list (map (cell_count h (c # ns) L) [0..P - 1]) =
        sum_list (map (\<lambda>p. if p = n_procs (h c) - 1
            then (if L = l \<and> expected_time (h c) < 5 then 1 else (0::int)) else 0) [0..P - 1])
        + sum_list (map (cell_count h ns L) [0..P - 1])"
      unfolding fn by (simp only: sum_list_addf)
    also have "sum_list (map (\<lambda>p. if p = n_procs (h c) - 1
            then (if L = l \<and> expected_time (h c) < 5 then 1 else (0::int)) else 0) [0..P - 1]) =
        (if L = l \<and> expected_time (h c) < 5 then 1 else (0::int))"
    proof -
      have "sum_list (map (\<lambda>p. if p = n_procs (h c) - 1
            then (if L = l \<and> expected_time (h c) < 5 then 1 else (0::int)) else 0) [0..P - 1]) =
          (if n_procs (h c) - 1 \<in> set [0..P - 1]
           then (if L = l \<and> expected_time (h c) < 5 then 1 else (0::int)) else 0)"
        by (rule sum_list_delta) simp
      then show ?thesis using p by (simp only: if_True)
    qed
    finally show ?thesis by auto
  qed
  have "sum_list (map (\<lambda>L. sum_list (map (cell_count h (c # ns) L) [0..P - 1])) [0..M]) =
      sum_list (map (\<lambda>L. if L = l then (if expected_time (h c) < 5 then 1 else (0::int)) else 0) [0..M])
      + sum_list (map (\<lambda>L. sum_list (map (cell_count h ns L) [0..P - 1])) [0..M])"
    by (simp add: inner sum_list_addf)
  also have "sum_list (map (\<lambda>L. if L = l then (if expected_time (h c) < 5 then 1 else (0::int)) else 0) [0..M])
      = (if expected_time (h c) < 5 then 1 else (0::int))"
  proof -
    have "sum_list (map (\<lambda>L. if L = l then (if expected_time (h c) < 5 then 1 else (0::int)) else 0) [0..M])
        = (if l \<in> set [0..M] then (if expected_time (h c) < 5 then 1 else (0::int)) else 0)"
      by (rule sum_list_delta) simp
    moreover have "l \<in> set [0..M]" using l(2,3) by simp
    ultimately show ?thesis by (simp only: if_True)
  qed
  finally show ?case
    using Cons.IH Cons.prems by simp
qed

lemma settled_independent:
  assumes "\<forall>n \<in> set ns. level (h n) = Some 0 \<and> depends (h n) = None"
    and "distinct (seen @ ns)"
  shows "settled h seen ns"
  using assms by (induction ns arbitrary: seen) auto

lemma short_graph_consistent: "graph_consistent four_heap (short_graph k)"
  by (simp add: graph_consistent_def short_graph_def nodes_def comp_def
      settled_independent four_heap_def new_case_def)

text \<open>
  What the code does on a consistent graph, with the batch size at its default of
  1: \<^verbatim>\<open>check_slurm_batches\<close> returns normally, leaves the cases as they are, and sets
  the batch size to 50 when more than 50 cases of the graph have an expected time
  below 5 minutes; otherwise the batch size stays 1. With 51 such cases it becomes
  50, with 49 it stays 1.
\<close>

theorem check_slurm_batches_autotune:
  assumes "graph_consistent h g"
  shows "check_slurm_batches h g 1 =
           Inr (h, if 50 < length (filter (\<lambda>c. expected_time (h c) < 5) (nodes g)) then 50 else 1)"
proof -
  have s: "settled h [] (nodes g)" using assms by (simp add: graph_consistent_def)
  have "sum_list (map (\<lambda>L. sum_list (map (cell_count h (nodes g) L) [0..max_proc g - 1])) [0..max_level g]) =
           int (length (filter (\<lambda>c. expected_time (h c) < 5) (nodes g)))"
    using assms by (intro cells_cover) (simp add: graph_consistent_def)
  then show ?thesis
    by (simp add: check_slurm_batches_def check_level_loop_settled [OF s])
qed

theorem check_slurm_batches_autotune_witness:
  "check_slurm_batches four_heap (short_graph 51) 1 = Inr (four_heap, 50) \<and>
   check_slurm_batches four_heap (short_graph 49) 1 = Inr (four_heap, 1)"
  using check_slurm_batches_autotune [OF short_graph_consistent [of 51]]
    check_slurm_batches_autotune [OF short_graph_consistent [of 49]]
  by (simp add: short_graph_def nodes_def comp_def four_heap_def new_case_def)

text \<open>
  A sub-graph keeps the levels of its nodes, and its \<open>max_level\<close> grows only on a
  match: the sub-graph of level 1 of the chain has its node at level 1 and a
  \<open>max_level\<close> of 0.
\<close>

lemma sub_graph_max_level:
  "map_sum id (\<lambda>(h', sub). (nodes sub, max_level sub, level (h' 1)))
     (extract_sub_graph chain_built chain_graph (Some 1) None) = Inr ([1], 0, Some 1)"
  by (simp add: extract_sub_graph_def init_graph_def add_node_def nodes_def add_dependency_def
      Let_def chain_heap_def new_case_def neighbor_name_def chain_built_def chain_graph_def)

lemma extract_loop_none_kept:
  "\<forall>n \<in> set ns. \<exists>l. level (h n) = Some l \<and> l \<noteq> fl \<Longrightarrow>
     extract_loop h sub (Some fl) fp ns = Inr (h, sub)"
  by (induction ns) auto

text \<open>
  C5. With the batch size at its default of 1 and more than 50 cases of the graph
  below 5 minutes, the batch size must become 50 (the docstring of the method: "the
  total number of cases with expected time lower than 5 minutes is greater than
  50"). On the graph that \<^verbatim>\<open>dump_graph\<close> builds under a level filter of 1, with 51
  such cases, all at level 1, and a \<open>max_level\<close> of 0, the loops visit level 0 only,
  count no case, and the batch size stays 1.
\<close>

theorem check_slurm_batches_filtered_graph:
  "length (filter (\<lambda>c. expected_time (filtered_heap c) < 5) (nodes filtered_graph)) = 51 \<and>
   check_slurm_batches filtered_heap filtered_graph 1 = Inr (filtered_heap, 1)"
proof -
  have levels: "\<forall>n \<in> set (nodes filtered_graph). \<exists>l. level (filtered_heap n) = Some l \<and> l \<noteq> 0"
    by (simp add: filtered_heap_def)
  have sub: "extract_sub_graph filtered_heap filtered_graph (Some 0) (Some p) =
               Inr (filtered_heap, init_graph)" for p
    by (simp add: extract_sub_graph_def extract_loop_none_kept [OF levels])
  have bounds: "max_level filtered_graph = 0" "max_proc filtered_graph = 1"
    by (simp_all add: filtered_graph_def)
  have "nodes init_graph = []" by (simp add: init_graph_def nodes_def)
  then have "check_slurm_batches filtered_heap filtered_graph 1 = Inr (filtered_heap, 1)"
    by (simp add: check_slurm_batches_def bounds sub)
  moreover have "length (filter (\<lambda>c. expected_time (filtered_heap c) < 5) (nodes filtered_graph)) = 51"
    by (simp add: filtered_heap_def new_case_def filtered_graph_def nodes_def)
  ultimately show ?thesis by simp
qed

end
